theory Spec2Isabelle
  imports Main
begin

section \<open>Strings\<close>

text \<open>
  A JavaScript string is modelled as a \<^typ>\<open>string\<close>, one \<^typ>\<open>char\<close> per code unit
  (the site's URLs, section names and titles are ASCII). \<open>length\<close> is the JavaScript
  \<^verbatim>\<open>.length\<close>.
\<close>

definition startsWith :: "string \<Rightarrow> string \<Rightarrow> bool" where
  "startsWith s p = (take (length p) s = p)"

fun includes_str :: "string \<Rightarrow> string \<Rightarrow> bool" where
  "includes_str [] p = (p = [])"
| "includes_str (c # cs) p = (startsWith (c # cs) p \<or> includes_str cs p)"

definition digit_char :: "nat \<Rightarrow> char" where
  "digit_char d = ''0123456789'' ! d"

text \<open>The decimal rendering of a non-negative integer inside a template literal.\<close>

fun show_nat :: "nat \<Rightarrow> string" where
  "show_nat n = (if n < 10 then [digit_char n] else show_nat (n div 10) @ [digit_char (n mod 10)])"

declare show_nat.simps [simp del]

section \<open>The liveness classifier: \<^verbatim>\<open>testUrl\<close>\<close>

text \<open>
  What \<^verbatim>\<open>page.goto\<close> and the two page reads that follow it give: the navigation
  throws (with the error's message), resolves to no response, or resolves to a response
  with a status; the page then has a title and, when it has a body, the body's
  \<^verbatim>\<open>innerText\<close>.
\<close>

datatype fetch_outcome =
    Throws string
  | NoResponse
  | Response nat string "string option"

text \<open>
  \<^verbatim>\<open>String.prototype.trim\<close> on the code units a \<^typ>\<open>char\<close> can hold: tab, line feed,
  vertical tab, form feed, carriage return, space and no-break space.
\<close>

definition is_space :: "char \<Rightarrow> bool" where
  "is_space c = (of_char c \<in> {9, 10, 11, 12, 13, 32, 160 :: nat})"

definition trim :: "string \<Rightarrow> string" where
  "trim s = rev (dropWhile is_space (rev (dropWhile is_space s)))"

text \<open>\<^verbatim>\<open>document.body ? document.body.innerText.trim() : ''\<close>\<close>

definition bodyText :: "string option \<Rightarrow> string" where
  "bodyText body = (case body of None \<Rightarrow> [] | Some t \<Rightarrow> trim t)"

text \<open>
  The \<^verbatim>\<open>status\<close> field of a failed result: the response's status code, the string
  \<^verbatim>\<open>'No response'\<close>, or (in the two scripts that have the \<^verbatim>\<open>else\<close> branch) the message
  \<^verbatim>\<open>200 but no content or title (N chars, title: "T")\<close>.
\<close>

datatype status_field =
    StatusCode nat
  | StatusNoResponse
  | StatusNoContent nat string

datatype test_result =
    Success string nat
  | Failed status_field
  | Errored string

fun success :: "test_result \<Rightarrow> bool" where
  "success (Success _ _) = True"
| "success _ = False"

text \<open>
  \<^verbatim>\<open>bodyText.length > 5 || (title && title.length > 0 && title !== 'Untitled')\<close>: a string
  is truthy when it is not empty.
\<close>

definition acceptable :: "string \<Rightarrow> string \<Rightarrow> bool" where
  "acceptable text title = (length text > 5 \<or> (title \<noteq> [] \<and> length title > 0 \<and> title \<noteq> ''Untitled''))"

text \<open>
  \<^verbatim>\<open>testUrl\<close> of \<^verbatim>\<open>url_tester.js\<close> (first script) and \<^verbatim>\<open>full_url_tester.js\<close>: a page with
  status 200 that is not acceptable fails with the message.
\<close>

fun testUrl_report :: "fetch_outcome \<Rightarrow> test_result" where
  "testUrl_report (Throws msg) = Errored msg"
| "testUrl_report NoResponse = Failed StatusNoResponse"
| "testUrl_report (Response st title body) =
     (if st = 200 then
        (if acceptable (bodyText body) title then Success title (length (bodyText body))
         else Failed (StatusNoContent (length (bodyText body)) title))
      else Failed (StatusCode st))"

text \<open>
  \<^verbatim>\<open>testUrl\<close> of the pagination scripts (\<^verbatim>\<open>testMissingSections\<close>,
  \<^verbatim>\<open>testTargetedSections\<close>, \<^verbatim>\<open>testPaginatedUrls\<close>): no \<^verbatim>\<open>else\<close> branch, a page with
  status 200 that is not acceptable falls through to the status code.
\<close>

fun testUrl :: "fetch_outcome \<Rightarrow> test_result" where
  "testUrl (Throws msg) = Errored msg"
| "testUrl NoResponse = Failed StatusNoResponse"
| "testUrl (Response st title body) =
     (if st = 200 \<and> acceptable (bodyText body) title then Success title (length (bodyText body))
      else Failed (StatusCode st))"

section \<open>The mirror writer's file names: \<^verbatim>\<open>generateFilename\<close>\<close>

text \<open>
  The character class \<^verbatim>\<open>[a-zA-Z0-9]\<close>, by the codes of its three ranges: \<^verbatim>\<open>0\<close> to
  \<^verbatim>\<open>9\<close> are 48 to 57, \<^verbatim>\<open>A\<close> to \<^verbatim>\<open>Z\<close> are 65 to 90, \<^verbatim>\<open>a\<close> to \<^verbatim>\<open>z\<close> are 97 to 122.
\<close>

definition is_alnum :: "char \<Rightarrow> bool" where
  "is_alnum c =
     (let n = of_char c :: nat
      in (97 \<le> n \<and> n \<le> 122) \<or> (65 \<le> n \<and> n \<le> 90) \<or> (48 \<le> n \<and> n \<le> 57))"

text \<open>\<^verbatim>\<open>sectionName.replace(/[^a-zA-Z0-9]/g, '_')\<close>\<close>

definition safeSectionName :: "string \<Rightarrow> string" where
  "safeSectionName sectionName = map (\<lambda>c. if is_alnum c then c else CHR ''_'') sectionName"

definition generateFilename :: "string \<Rightarrow> nat \<Rightarrow> string" where
  "generateFilename sectionName pageNumber =
     (if pageNumber = 0 then safeSectionName sectionName
      else safeSectionName sectionName @ ''_page'' @ show_nat pageNumber)"

section \<open>Pagination probing\<close>

text \<open>
  \<^verbatim>\<open>config.baseUrl\<close>, and the probed URL
  \<^verbatim>\<open>`${config.baseUrl}${sectionName}/page${pageNum}.html`\<close>.
\<close>

definition baseUrl :: string where
  "baseUrl = ''https://0002n8y.wcomhost.com/website/''"

definition pageUrl :: "string \<Rightarrow> nat \<Rightarrow> string" where
  "pageUrl sectionName pageNum = baseUrl @ sectionName @ ''/page'' @ show_nat pageNum @ ''.html''"

text \<open>An entry of \<^verbatim>\<open>sectionData.pages\<close>.\<close>

record page_data =
  pd_url :: string
  pd_pageNumber :: nat
  pd_title :: string
  pd_contentLength :: nat

text \<open>
  The variables of one section's probing loop: \<^verbatim>\<open>sectionData.pages\<close>,
  \<^verbatim>\<open>sectionData.totalPages\<close>, \<^verbatim>\<open>foundAnyPages\<close> and \<^verbatim>\<open>consecutiveFailures\<close>, and
  the page numbers handed to \<^verbatim>\<open>testUrl\<close> so far (\<open>probed\<close>, a record of what the loop
  requested). The page fetcher is a function from the URL to the outcome of the navigation.
\<close>

record section_probe =
  probed :: "nat list"
  pages :: "page_data list"
  totalPages :: nat
  foundAnyPages :: bool
  consecutiveFailures :: nat

text \<open>
  The loop \<^verbatim>\<open>for (let pageNum = 1; pageNum <= config.maxPagesToTest; pageNum++)\<close> of
  \<^verbatim>\<open>testMissingSections\<close> and \<^verbatim>\<open>testTargetedSections\<close>, from \<open>pageNum\<close> on. The two
  scripts differ in the ceiling and in the two thresholds of the \<^verbatim>\<open>break\<close>s
  (\<open>stopFound\<close>: \<^verbatim>\<open>foundAnyPages && consecutiveFailures >= 5\<close>; \<open>stopNone\<close>:
  \<^verbatim>\<open>!foundAnyPages && consecutiveFailures >= 10\<close>, or \<^verbatim>\<open>>= 8\<close>).
\<close>

function probe_pages ::
  "(string \<Rightarrow> fetch_outcome) \<Rightarrow> string \<Rightarrow> nat \<Rightarrow> nat \<Rightarrow> nat \<Rightarrow> nat \<Rightarrow> section_probe \<Rightarrow> section_probe"
where
  "probe_pages fetch sectionName maxPagesToTest stopFound stopNone pageNum s =
     (if pageNum \<le> maxPagesToTest then
        (case testUrl (fetch (pageUrl sectionName pageNum)) of
           Success title contentLength \<Rightarrow>
             probe_pages fetch sectionName maxPagesToTest stopFound stopNone (pageNum + 1)
               (s\<lparr>probed := probed s @ [pageNum],
                  pages := pages s @ [\<lparr>pd_url = pageUrl sectionName pageNum, pd_pageNumber = pageNum,
                                         pd_title = title, pd_contentLength = contentLength\<rparr>],
                  totalPages := totalPages s + 1,
                  foundAnyPages := True,
                  consecutiveFailures := 0\<rparr>)
         | _ \<Rightarrow>
             (let s' = s\<lparr>probed := probed s @ [pageNum],
                         consecutiveFailures := consecutiveFailures s + 1\<rparr>
              in if foundAnyPages s' \<and> consecutiveFailures s' \<ge> stopFound then s'
                 else if \<not> foundAnyPages s' \<and> consecutiveFailures s' \<ge> stopNone then s'
                 else probe_pages fetch sectionName maxPagesToTest stopFound stopNone (pageNum + 1) s'))
      else s)"
  by pat_completeness auto
termination
  by (relation "measure (\<lambda>(fetch, sectionName, maxPagesToTest, stopFound, stopNone, pageNum, s). maxPagesToTest + 1 - pageNum)") auto

declare probe_pages.simps [simp del]

text \<open>
  One section of \<^verbatim>\<open>testMissingSections\<close>: ceiling 25, thresholds 5 and 10, nothing found
  at the start.
\<close>

definition testMissingSections_section :: "(string \<Rightarrow> fetch_outcome) \<Rightarrow> string \<Rightarrow> section_probe" where
  "testMissingSections_section fetch sectionName =
     probe_pages fetch sectionName 25 5 10 1
       \<lparr>probed = [], pages = [], totalPages = 0, foundAnyPages = False, consecutiveFailures = 0\<rparr>"

text \<open>
  One section of \<^verbatim>\<open>testTargetedSections\<close>: the base directory URL is tested first and
  \<^verbatim>\<open>foundAnyPages\<close> starts as its result; ceiling 30, thresholds 5 and 8.
\<close>

definition testTargetedSections_section :: "(string \<Rightarrow> fetch_outcome) \<Rightarrow> string \<Rightarrow> section_probe" where
  "testTargetedSections_section fetch sectionName =
     (let sectionBase = baseUrl @ sectionName @ ''/'';
          baseResult = testUrl (fetch sectionBase);
          s0 = (case baseResult of
                  Success title contentLength \<Rightarrow>
                    \<lparr>probed = [],
                     pages = [\<lparr>pd_url = sectionBase, pd_pageNumber = 0, pd_title = title,
                               pd_contentLength = contentLength\<rparr>],
                     totalPages = 1, foundAnyPages = True, consecutiveFailures = 0\<rparr>
                | _ \<Rightarrow>
                    \<lparr>probed = [], pages = [], totalPages = 0, foundAnyPages = False,
                     consecutiveFailures = 0\<rparr>)
      in probe_pages fetch sectionName 30 5 8 1 s0)"

text \<open>Page \<open>k\<close> of the section is accepted by the classifier.\<close>

abbreviation accepted :: "(string \<Rightarrow> fetch_outcome) \<Rightarrow> string \<Rightarrow> nat \<Rightarrow> bool" where
  "accepted fetch sectionName k \<equiv> success (testUrl (fetch (pageUrl sectionName k)))"

section \<open>URL discovery: the frontier of \<^verbatim>\<open>discoverUrls\<close>\<close>

text \<open>
  A JavaScript \<^verbatim>\<open>Set\<close> of strings keeps its elements in insertion order; it is a list
  without duplicates, and \<^verbatim>\<open>add\<close> appends an element that is not yet there.
\<close>

definition set_add :: "'a \<Rightarrow> 'a list \<Rightarrow> 'a list" where
  "set_add x xs = (if x \<in> set xs then xs else xs @ [x])"

record frontier =
  urlQueue :: "string list"
  visitedUrls :: "string list"
  discoveredUrls :: "string list"

text \<open>
  \<^verbatim>\<open>const urlQueue = [...config.startUrls]\<close>, with both sets empty.
\<close>

definition startUrls :: "string list" where
  "startUrls = [''everyplayer/'', ''top25/'', ''nextgame/'']"

definition initial_frontier :: "string list \<Rightarrow> frontier" where
  "initial_frontier starts = \<lparr>urlQueue = starts, visitedUrls = [], discoveredUrls = []\<rparr>"

text \<open>
  The head of the loop body: \<^verbatim>\<open>urlQueue.shift()\<close>, then \<^verbatim>\<open>continue\<close> when the URL has
  been visited, otherwise \<^verbatim>\<open>visitedUrls.add(currentUrl)\<close> before the navigation. The
  result is the URL to fetch, if any.
\<close>

definition next_url :: "frontier \<Rightarrow> string option \<times> frontier" where
  "next_url st =
     (case urlQueue st of
        [] \<Rightarrow> (None, st)
      | currentUrl # rest \<Rightarrow>
          if currentUrl \<in> set (visitedUrls st) then (None, st\<lparr>urlQueue := rest\<rparr>)
          else (Some currentUrl,
                st\<lparr>urlQueue := rest, visitedUrls := set_add currentUrl (visitedUrls st)\<rparr>))"

text \<open>
  The body of \<^verbatim>\<open>for (const link of links)\<close>:
  \<^verbatim>\<open>if (!visitedUrls.has(link) && !urlQueue.includes(link)) { urlQueue.push(link); discoveredUrls.add(link); }\<close>
\<close>

definition enqueue :: "string \<Rightarrow> frontier \<Rightarrow> frontier" where
  "enqueue link st =
     (if link \<notin> set (visitedUrls st) \<and> link \<notin> set (urlQueue st)
      then st\<lparr>urlQueue := urlQueue st @ [link], discoveredUrls := set_add link (discoveredUrls st)\<rparr>
      else st)"

text \<open>
  An arbitrary interleaving of the two operations, and the URLs handed out for fetching,
  in order.
\<close>

datatype frontier_op = Enqueue string | Next

fun run_ops :: "frontier_op list \<Rightarrow> frontier \<Rightarrow> string list" where
  "run_ops [] st = []"
| "run_ops (Enqueue link # ops) st = run_ops ops (enqueue link st)"
| "run_ops (Next # ops) st =
     (case next_url st of
        (None, st') \<Rightarrow> run_ops ops st'
      | (Some u, st') \<Rightarrow> u # run_ops ops st')"

subsection \<open>Link extraction\<close>

text \<open>
  An anchor element as the script reads it: the \<^verbatim>\<open>href\<close> property (which the browser
  has resolved; the empty string when there is none) and the \<^verbatim>\<open>href\<close> attribute as
  written in the markup.
\<close>

record anchor =
  a_href :: string
  a_attr :: "string option"

definition origin :: string where
  "origin = ''https://0002n8y.wcomhost.com''"

definition siteBase :: string where
  "siteBase = ''https://0002n8y.wcomhost.com/website/''"

text \<open>\<^verbatim>\<open>a.href || a.getAttribute('href')\<close>, and \<^verbatim>\<open>if (!href) return null\<close>.\<close>

definition link_href :: "anchor \<Rightarrow> string option" where
  "link_href a =
     (if a_href a \<noteq> [] then Some (a_href a)
      else (case a_attr a of None \<Rightarrow> None | Some h \<Rightarrow> if h = [] then None else Some h))"

text \<open>
  ``Convert relative URLs to absolute'': the origin is put before a slash-rooted href, the
  page's URL before one that starts with \<^verbatim>\<open>../\<close> or has no \<^verbatim>\<open>://\<close>.
\<close>

definition absolutize :: "string \<Rightarrow> string \<Rightarrow> string" where
  "absolutize fullUrl href =
     (if startsWith href ''/'' then origin @ href
      else if startsWith href ''../'' \<or> \<not> includes_str href ''://'' then fullUrl @ href
      else href)"

text \<open>\<^verbatim>\<open>s.replace(pat, rep)\<close> with a string pattern: the first occurrence only.\<close>

fun replace_first :: "string \<Rightarrow> string \<Rightarrow> string \<Rightarrow> string" where
  "replace_first pat rep [] = (if pat = [] then rep else [])"
| "replace_first pat rep (c # cs) =
     (if startsWith (c # cs) pat then rep @ drop (length pat) (c # cs)
      else c # replace_first pat rep cs)"

text \<open>
  The normalizer: the href made absolute, kept when it starts with the site base, and the
  site base removed. \<open>None\<close> is a link that the \<^verbatim>\<open>filter\<close> drops.
\<close>

definition normalize :: "string \<Rightarrow> string \<Rightarrow> string option" where
  "normalize fullUrl href =
     (let h = absolutize fullUrl href
      in if h \<noteq> [] \<and> startsWith h siteBase then Some (replace_first siteBase [] h) else None)"

definition extract_links :: "string \<Rightarrow> anchor list \<Rightarrow> string list" where
  "extract_links fullUrl anchors =
     List.map_filter (\<lambda>a. case link_href a of None \<Rightarrow> None | Some href \<Rightarrow> normalize fullUrl href) anchors"

subsection \<open>The crawl loop\<close>

text \<open>
  \<^verbatim>\<open>while (urlQueue.length > 0)\<close>. The page fetcher gives the anchors of a page, or
  \<open>None\<close> when the navigation throws (the \<^verbatim>\<open>catch\<close> only logs). Nothing bounds the
  number of iterations (a site can link to ever new URLs), so the loop takes fuel: the
  result is \<open>None\<close> when the fuel runs out before the queue is empty, otherwise the URLs
  fetched, in order, and the final frontier. The periodic write of the discovered URLs
  changes nothing in the frontier and is left out.
\<close>

fun discoverUrls :: "nat \<Rightarrow> (string \<Rightarrow> anchor list option) \<Rightarrow> frontier \<Rightarrow> string list
    \<Rightarrow> (string list \<times> frontier) option" where
  "discoverUrls fuel fetch st fetched =
     (if urlQueue st = [] then Some (fetched, st)
      else (case fuel of
          0 \<Rightarrow> None
        | Suc fuel' \<Rightarrow>
            (case next_url st of
               (None, st') \<Rightarrow> discoverUrls fuel' fetch st' fetched
             | (Some currentUrl, st') \<Rightarrow>
                 (case fetch (baseUrl @ currentUrl) of
                    None \<Rightarrow> discoverUrls fuel' fetch st' (fetched @ [currentUrl])
                  | Some anchors \<Rightarrow>
                      discoverUrls fuel' fetch
                        (foldl (\<lambda>s link. enqueue link s) st'
                           (extract_links (baseUrl @ currentUrl) anchors))
                        (fetched @ [currentUrl])))))"

subsection \<open>Reference resolution, as the specification words it\<close>








section \<open>URL testing with checkpoints\<close>



subsection \<open>\<^verbatim>\<open>full_url_tester.js\<close>: \<^verbatim>\<open>testAllUrls\<close>\<close>

record url_mapping =
  pageName :: string
  url :: string
  baseName :: string




text \<open>
  The mapping that \<^verbatim>\<open>loadAllPageNames\<close> makes of a page name of the validation report
  (\<^verbatim>\<open>page.replace('.html', '')\<close> is the base name), and the list it returns: the names that
  end in \<^verbatim>\<open>.html\<close> and contain no \<^verbatim>\<open>../\<close>.
\<close>

definition endsWith :: "string \<Rightarrow> string \<Rightarrow> bool" where
  "endsWith s p = (length p \<le> length s \<and> drop (length s - length p) s = p)"

definition mapping_of :: "string \<Rightarrow> url_mapping" where
  "mapping_of page =
     (let base = replace_first ''.html'' [] page
      in \<lparr>pageName = page, url = baseUrl @ base @ ''/'', baseName = base\<rparr>)"

definition loadAllPageNames :: "string list \<Rightarrow> url_mapping list" where
  "loadAllPageNames names =
     map mapping_of (filter (\<lambda>page. \<not> includes_str page ''../'') (filter (\<lambda>page. endsWith page ''.html'') names))"












subsection \<open>\<^verbatim>\<open>url_tester.js\<close>: \<^verbatim>\<open>testUrlFormats\<close>\<close>











section \<open>The mirror writer: \<^verbatim>\<open>RobustDownloader\<close>\<close>

subsection \<open>Configuration and the world outside\<close>

definition retryAttempts :: nat where
  "retryAttempts = 3"

definition delayBetweenPages :: nat where
  "delayBetweenPages = 1000"

text \<open>\<^verbatim>\<open>path.join(config.outputDir, config.pagesDir, ...)\<close> and the same for images.\<close>

definition pagesPath :: "string \<Rightarrow> string" where
  "pagesPath name = ''downloaded_site/pages/'' @ name"

definition imagesPath :: "string \<Rightarrow> string" where
  "imagesPath name = ''downloaded_site/assets/images/'' @ name"

text \<open>
  An entry of \<^verbatim>\<open>extractImages\<close>: the resolved \<^verbatim>\<open>img.src\<close> and the attribute as written
  (\<^verbatim>\<open>alt\<close>, \<^verbatim>\<open>width\<close> and \<^verbatim>\<open>height\<close> are never read again).
\<close>

record image_data =
  src :: string
  originalSrc :: string

text \<open>What a page gives once the navigation has succeeded: its markup and its images.\<close>

record page_view =
  html :: string
  images :: "image_data list"

text \<open>
  A navigation to an image: it throws, or resolves to no response, or to a response with
  its \<^verbatim>\<open>ok()\<close> flag and its body.
\<close>

datatype image_outcome =
    ImageThrows string
  | ImageNoResponse
  | ImageResponse bool string

text \<open>
  The world the downloader runs in. Navigations are numbered in the order in which they
  are made, and the outcome of one may depend on its number (a page that fails now may
  load at the next attempt): \<open>w_page n url\<close> is what navigation number \<open>n\<close> gives when it
  goes to the page \<open>url\<close>, either the message of the error that the navigation throws
  or the page; \<open>w_image n url\<close> is the same for an image. Reading a page that has loaded
  and writing a file are taken to succeed. \<open>w_md5\<close> is the first 8 hexadecimal digits of
  the MD5 digest of a string.
\<close>

record world =
  w_page :: "nat \<Rightarrow> string \<Rightarrow> string + page_view"
  w_image :: "nat \<Rightarrow> string \<Rightarrow> image_outcome"
  w_md5 :: "string \<Rightarrow> string"

subsection \<open>The downloader's state\<close>

record url_data =
  ud_url :: string
  ud_sectionName :: string
  ud_pageNumber :: nat
  ud_title :: string

record stats =
  totalUrls :: nat
  downloaded :: nat
  failedCount :: nat
  imageCount :: nat

record progress_data =
  p_stats :: stats
  p_downloadedUrls :: "string list"
  p_failedUrls :: "(string \<times> string) list"
  p_imageMapping :: "(string \<times> string) list"

text \<open>What the run does that can be observed from outside: navigations and timers.\<close>

datatype event = Goto string | Delay nat

text \<open>
  The fields of the \<^verbatim>\<open>RobustDownloader\<close> object (\<^verbatim>\<open>imageMapping\<close> is a \<^verbatim>\<open>Map\<close>, kept in
  insertion order; \<^verbatim>\<open>failedUrls\<close> and \<^verbatim>\<open>stats\<close> are \<open>failedUrlList\<close> and \<open>dstats\<close> here,
  \<^verbatim>\<open>stats.failed\<close> and \<^verbatim>\<open>stats.images\<close> are \<open>failedCount\<close> and \<open>imageCount\<close>), the files
  written so far, the progress file, and the events so far with the number of navigations
  made.
\<close>

record downloader =
  downloadedUrls :: "string list"
  failedUrlList :: "(string \<times> string) list"
  imageMapping :: "(string \<times> string) list"
  dstats :: stats
  files :: "string \<rightharpoonup> string"
  progress :: "progress_data option"
  events :: "event list"
  navigations :: nat

definition new_downloader :: downloader where
  "new_downloader =
     \<lparr>downloadedUrls = [], failedUrlList = [], imageMapping = [],
      dstats = \<lparr>totalUrls = 0, downloaded = 0, failedCount = 0, imageCount = 0\<rparr>,
      files = Map.empty, progress = None, events = [], navigations = 0\<rparr>"

text \<open>\<^verbatim>\<open>Map.prototype.set\<close>: a key that is present keeps its place and takes the new value.\<close>

definition map_set :: "'k \<Rightarrow> 'v \<Rightarrow> ('k \<times> 'v) list \<Rightarrow> ('k \<times> 'v) list" where
  "map_set k v m =
     (if k \<in> fst ` set m then map (\<lambda>(k', v'). if k' = k then (k', v) else (k', v')) m
      else m @ [(k, v)])"

subsection \<open>Image file names\<close>

definition to_lower :: "char \<Rightarrow> char" where
  "to_lower c =
     (case map_of (zip ''ABCDEFGHIJKLMNOPQRSTUVWXYZ'' ''abcdefghijklmnopqrstuvwxyz'') c of
        Some l \<Rightarrow> l
      | None \<Rightarrow> c)"

text \<open>
  The first match of \<^verbatim>\<open>/\.([a-zA-Z0-9]+)(?:\?|$)/\<close>: the leftmost dot whose longest run of
  letters and digits is not empty and ends at a \<^verbatim>\<open>?\<close> or at the end of the string (a
  shorter run ends before a letter or digit, so backtracking finds nothing more).
\<close>

fun match_extension :: "string \<Rightarrow> string option" where
  "match_extension [] = None"
| "match_extension (c # cs) =
     (if c = CHR ''.'' then
        (case (takeWhile is_alnum cs, dropWhile is_alnum cs) of
           ([], _) \<Rightarrow> match_extension cs
         | (ext, []) \<Rightarrow> Some ext
         | (ext, d # _) \<Rightarrow> if d = CHR ''?'' then Some ext else match_extension cs)
      else match_extension cs)"

definition getImageExtension :: "string \<Rightarrow> string" where
  "getImageExtension u =
     (case match_extension u of Some ext \<Rightarrow> map to_lower ext | None \<Rightarrow> ''jpg'')"

subsection \<open>\<^verbatim>\<open>downloadImages\<close>\<close>

record downloaded_image =
  di_originalSrc :: string
  di_newPath :: string
  di_filename :: string
  di_size :: nat

text \<open>\<^verbatim>\<open>if (!imageUrl || imageUrl.startsWith('data:')) continue\<close>\<close>

definition skipped :: "image_data \<Rightarrow> bool" where
  "skipped imageData = (src imageData = [] \<or> startsWith (src imageData) ''data:'')"

text \<open>
  The loop over the images, with the list \<^verbatim>\<open>downloadedImages\<close> built so far. An image
  that is not skipped is navigated to; the \<^verbatim>\<open>catch\<close> of a throwing navigation only logs.
\<close>

fun downloadImages :: "world \<Rightarrow> image_data list \<Rightarrow> downloaded_image list \<Rightarrow> downloader
    \<Rightarrow> downloaded_image list \<times> downloader" where
  "downloadImages w [] downloadedImages st = (downloadedImages, st)"
| "downloadImages w (imageData # rest) downloadedImages st =
     (if skipped imageData then downloadImages w rest downloadedImages st
      else
        (let imageUrl = src imageData;
             imageFilename = ''img'' @ show_nat (length downloadedImages) @ ''_'' @ w_md5 w imageUrl
                               @ ''.'' @ getImageExtension imageUrl;
             st1 = st\<lparr>events := events st @ [Goto imageUrl], navigations := navigations st + 1\<rparr>
         in case w_image w (navigations st) imageUrl of
              ImageResponse True imageBuffer \<Rightarrow>
                downloadImages w rest
                  (downloadedImages @
                     [\<lparr>di_originalSrc = originalSrc imageData,
                       di_newPath = ''assets/images/'' @ imageFilename,
                       di_filename = imageFilename, di_size = length imageBuffer\<rparr>])
                  (st1\<lparr>files := (files st1)(imagesPath imageFilename \<mapsto> imageBuffer),
                       imageMapping := map_set (originalSrc imageData)
                                         (''assets/images/'' @ imageFilename) (imageMapping st1)\<rparr>)
            | _ \<Rightarrow> downloadImages w rest downloadedImages st1))"

subsection \<open>\<^verbatim>\<open>processHtmlContent\<close>\<close>

definition is_quote :: "char \<Rightarrow> bool" where
  "is_quote c = (c = CHR 0x22 \<or> c = CHR 0x27)"

text \<open>
  The regular expression built for one entry of the mapping matches, at the start of
  \<open>s\<close>, the text \<^verbatim>\<open>src=\<close>, a quote of either kind, the escaped (hence literal) original
  source, and a quote of either kind.
\<close>

definition src_matches :: "string \<Rightarrow> string \<Rightarrow> bool" where
  "src_matches orig s =
     (if startsWith s ''src='' then
        (case drop 4 s of
           [] \<Rightarrow> False
         | q # r \<Rightarrow> is_quote q \<and> startsWith r orig
                   \<and> (case drop (length orig) r of [] \<Rightarrow> False | q' # _ \<Rightarrow> is_quote q'))
      else False)"

text \<open>
  \<^verbatim>\<open>processedHtml.replace(regex, `src="${newPath}"`)\<close> with the flag \<^verbatim>\<open>g\<close>: every match,
  from the left, the search going on after the text replaced. (The new path is made of
  \<^verbatim>\<open>assets/images/img\<close>, digits, hexadecimal digits and an extension of letters and digits:
  it has no \<^verbatim>\<open>$\<close> for the replacement to interpret.)
\<close>

function replace_src :: "string \<Rightarrow> string \<Rightarrow> string \<Rightarrow> string" where
  "replace_src orig newPath [] = []"
| "replace_src orig newPath (c # cs) =
     (if src_matches orig (c # cs)
      then ''src='' @ [CHR 0x22] @ newPath @ [CHR 0x22]
             @ replace_src orig newPath (drop (length orig + 6) (c # cs))
      else c # replace_src orig newPath cs)"
  by pat_completeness auto
termination
  by (relation "measure (\<lambda>(orig, newPath, s). length s)") auto

text \<open>\<^verbatim>\<open>for (const [originalSrc, newPath] of this.imageMapping)\<close>; the argument \<^verbatim>\<open>images\<close> is not read.\<close>

definition processHtmlContent :: "(string \<times> string) list \<Rightarrow> string \<Rightarrow> image_data list \<Rightarrow> string" where
  "processHtmlContent mapping htmlContent imgs =
     foldl (\<lambda>processedHtml (orig, newPath). replace_src orig newPath processedHtml) htmlContent mapping"

subsection \<open>\<^verbatim>\<open>downloadPage\<close>\<close>

datatype download_result =
    Saved string string nat
  | NotSaved string string

text \<open>
  One call \<^verbatim>\<open>downloadPage(urlData, attempt)\<close>. In the \<^verbatim>\<open>try\<close> block the markup is
  processed with the mapping as it is and written, and the images are downloaded after
  that. In the \<^verbatim>\<open>catch\<close> the call is repeated after 2000 ms while
  \<^verbatim>\<open>attempt < config.retryAttempts\<close>; otherwise the URL goes to \<^verbatim>\<open>failedUrls\<close>.
\<close>

function downloadPage :: "world \<Rightarrow> url_data \<Rightarrow> nat \<Rightarrow> downloader \<Rightarrow> download_result \<times> downloader" where
  "downloadPage w urlData attempt st =
     (let st1 = st\<lparr>events := events st @ [Goto (ud_url urlData)], navigations := navigations st + 1\<rparr>
      in case w_page w (navigations st) (ud_url urlData) of
           Inr page \<Rightarrow>
             (let st2 = st1\<lparr>events := events st1 @ [Delay 1000]\<rparr>;
                  htmlContent = html page;
                  imgs = images page;
                  filename = generateFilename (ud_sectionName urlData) (ud_pageNumber urlData);
                  htmlPath = pagesPath (filename @ ''.html'');
                  processedHtml = processHtmlContent (imageMapping st2) htmlContent imgs;
                  st3 = st2\<lparr>files := (files st2)(htmlPath \<mapsto> processedHtml)\<rparr>;
                  (downloadedImages, st4) = downloadImages w imgs [] st3;
                  st5 = st4\<lparr>dstats := (dstats st4)
                              \<lparr>downloaded := downloaded (dstats st4) + 1,
                               imageCount := imageCount (dstats st4) + length downloadedImages\<rparr>,
                            downloadedUrls := set_add (ud_url urlData) (downloadedUrls st4)\<rparr>
              in (Saved (ud_url urlData) (filename @ ''.html'') (length downloadedImages), st5))
         | Inl message \<Rightarrow>
             (if attempt < retryAttempts
              then downloadPage w urlData (attempt + 1) (st1\<lparr>events := events st1 @ [Delay 2000]\<rparr>)
              else (NotSaved (ud_url urlData) message,
                    st1\<lparr>failedUrlList := failedUrlList st1 @ [(ud_url urlData, message)],
                        dstats := (dstats st1)\<lparr>failedCount := failedCount (dstats st1) + 1\<rparr>\<rparr>)))"
  by pat_completeness auto
termination
  by (relation "measure (\<lambda>(w, urlData, attempt, st). retryAttempts - attempt)") auto

declare downloadPage.simps [simp del]

subsection \<open>\<^verbatim>\<open>saveProgress\<close> and \<^verbatim>\<open>run\<close>\<close>

text \<open>The progress file, without the timestamp, the elapsed time and the success rate.\<close>

definition save_progress :: "downloader \<Rightarrow> downloader" where
  "save_progress st =
     st\<lparr>progress := Some \<lparr>p_stats = dstats st, p_downloadedUrls = downloadedUrls st,
                           p_failedUrls = failedUrlList st, p_imageMapping = imageMapping st\<rparr>\<rparr>"

text \<open>
  The loop \<^verbatim>\<open>for (const urlData of urls)\<close> of \<^verbatim>\<open>run\<close>, \<open>n\<close> being \<^verbatim>\<open>urls.length\<close>: the
  result of \<^verbatim>\<open>downloadPage\<close> is not looked at, the progress is saved when the number of
  downloads is a multiple of 10, and the loop waits while there is more to download.
\<close>

fun download_all :: "world \<Rightarrow> nat \<Rightarrow> url_data list \<Rightarrow> downloader \<Rightarrow> downloader" where
  "download_all w n [] st = st"
| "download_all w n (urlData # rest) st =
     (let st1 = snd (downloadPage w urlData 1 st);
          st2 = (if downloaded (dstats st1) mod 10 = 0 then save_progress st1 else st1);
          st3 = (if downloaded (dstats st2) < n
                 then st2\<lparr>events := events st2 @ [Delay delayBetweenPages]\<rparr> else st2)
      in download_all w n rest st3)"

text \<open>\<^verbatim>\<open>run\<close>, from the loaded list of URLs on.\<close>

definition run :: "world \<Rightarrow> url_data list \<Rightarrow> downloader" where
  "run w urls =
     (if urls = [] then new_downloader
      else save_progress
             (download_all w (length urls) urls
                (new_downloader\<lparr>dstats := (dstats new_downloader)\<lparr>totalUrls := length urls\<rparr>\<rparr>)))"

subsection \<open>A page with three images\<close>

text \<open>
  The page \<^verbatim>\<open>season2022/\<close> with three images, of which \<^verbatim>\<open>a.png\<close> and \<^verbatim>\<open>b.png\<close> download
  and \<^verbatim>\<open>c.png\<close> answers with a status that is not \<^verbatim>\<open>ok\<close>; the digests are the MD5 digests
  of the three image URLs. The markup is what \<^verbatim>\<open>page.content()\<close> serializes, with double
  quotes around the attribute values.
\<close>

definition dq :: string where
  "dq = [CHR 0x22]"

definition season_markup :: string where
  "season_markup =
     ''<img src='' @ dq @ ''a.png'' @ dq @ ''><img src='' @ dq @ ''b.png'' @ dq
       @ ''><img src='' @ dq @ ''c.png'' @ dq @ ''>''"

definition season_images :: "image_data list" where
  "season_images =
     [\<lparr>src = ''https://0002n8y.wcomhost.com/website/season2022/a.png'', originalSrc = ''a.png''\<rparr>,
      \<lparr>src = ''https://0002n8y.wcomhost.com/website/season2022/b.png'', originalSrc = ''b.png''\<rparr>,
      \<lparr>src = ''https://0002n8y.wcomhost.com/website/season2022/c.png'', originalSrc = ''c.png''\<rparr>]"

definition season_world :: world where
  "season_world =
     \<lparr>w_page = (\<lambda>n u. if u = ''https://0002n8y.wcomhost.com/website/season2022/''
                      then Inr \<lparr>html = season_markup, images = season_images\<rparr>
                      else Inl ''net::ERR_ABORTED''),
      w_image = (\<lambda>n u. if u = ''https://0002n8y.wcomhost.com/website/season2022/c.png''
                       then ImageResponse False [] else ImageResponse True ''PNG''),
      w_md5 = (\<lambda>u. if u = ''https://0002n8y.wcomhost.com/website/season2022/a.png'' then ''ac7687e8''
                    else if u = ''https://0002n8y.wcomhost.com/website/season2022/b.png'' then ''92f209d3''
                    else ''f4fb463c'')\<rparr>"

definition season_page :: url_data where
  "season_page =
     \<lparr>ud_url = ''https://0002n8y.wcomhost.com/website/season2022/'', ud_sectionName = ''season2022'',
      ud_pageNumber = 0, ud_title = ''Season 2022''\<rparr>"

section \<open>Theorems\<close>

subsection \<open>The classifier and the file names\<close>

lemma dropWhile_hd: "xs = [] \<or> \<not> P (hd xs) \<Longrightarrow> dropWhile P xs = xs"
  by (cases xs) auto

lemma trim_clean:
  assumes "t = [] \<or> (\<not> is_space (hd t) \<and> \<not> is_space (last t))"
  shows "trim t = t"
proof -
  have "dropWhile is_space t = t"
    using assms by (intro dropWhile_hd) auto
  moreover have "dropWhile is_space (rev t) = rev t"
    using assms by (intro dropWhile_hd) (auto simp: hd_rev)
  ultimately show ?thesis
    by (simp add: trim_def)
qed

text \<open>
  C1. On a fetch outcome with status 200, the classifier accepts exactly when the
  rendered text is longer than 5 characters or the title is non-empty and not
  \<open>Untitled\<close>. With empty text, the title \<open>Untitled\<close> is rejected and the title
  \<open>Club Honours\<close> is accepted. Both variants of \<^verbatim>\<open>testUrl\<close> agree on this. The
  rendered text is the body's text without the white space at its two ends (nothing when
  the page has no body): a text with no white space at either end counts with its own
  length, so that under the title \<open>Untitled\<close>, or with no title, the page is accepted
  exactly when that text has more than 5 characters; \<open>123456\<close> is accepted, \<open>12345\<close> is
  not, with or without blanks around it. Another status than 200 is rejected.
\<close>

theorem C1_classifier_boundary:
  "success (testUrl (Response 200 title body)) =
     (length (bodyText body) > 5 \<or> (title \<noteq> [] \<and> title \<noteq> ''Untitled''))
   \<and> success (testUrl_report (Response 200 title body)) =
     (length (bodyText body) > 5 \<or> (title \<noteq> [] \<and> title \<noteq> ''Untitled''))
   \<and> (bodyText body = [] \<longrightarrow>
        \<not> success (testUrl (Response 200 ''Untitled'' body))
      \<and> \<not> success (testUrl_report (Response 200 ''Untitled'' body))
      \<and> success (testUrl (Response 200 ''Club Honours'' body))
      \<and> success (testUrl_report (Response 200 ''Club Honours'' body)))
   \<and> bodyText None = []
   \<and> (t = [] \<or> (\<not> is_space (hd t) \<and> \<not> is_space (last t)) \<longrightarrow>
        bodyText (Some t) = t
      \<and> success (testUrl (Response 200 title (Some t))) =
          (length t > 5 \<or> (title \<noteq> [] \<and> title \<noteq> ''Untitled''))
      \<and> success (testUrl_report (Response 200 title (Some t))) =
          (length t > 5 \<or> (title \<noteq> [] \<and> title \<noteq> ''Untitled''))
      \<and> success (testUrl (Response 200 ''Untitled'' (Some t))) = (length t > 5)
      \<and> success (testUrl (Response 200 [] (Some t))) = (length t > 5))
   \<and> success (testUrl (Response 200 ''Untitled'' (Some ''Fixtures'')))
   \<and> success (testUrl_report (Response 200 ''Untitled'' (Some ''Fixtures'')))
   \<and> success (testUrl (Response 200 [] (Some ''123456'')))
   \<and> \<not> success (testUrl (Response 200 [] (Some ''12345'')))
   \<and> \<not> success (testUrl_report (Response 200 ''Untitled'' (Some ''12345'')))
   \<and> bodyText (Some ''  12345  '') = ''12345''
   \<and> \<not> success (testUrl (Response 200 ''Untitled'' (Some ''  12345  '')))
   \<and> bodyText (Some [CHR 0x09, CHR ''a'', CHR '' '', CHR ''b'', CHR 0x0A]) = ''a b''
   \<and> \<not> success (testUrl (Response 200 ''Untitled'' None))
   \<and> success (testUrl (Response 200 ''Club Honours'' None))
   \<and> \<not> success (testUrl (Response 404 ''Club Honours'' (Some ''Fixtures and results'')))"
proof -
  have clean: "bodyText (Some t) = t" if "t = [] \<or> (\<not> is_space (hd t) \<and> \<not> is_space (last t))"
    using that by (simp add: bodyText_def trim_clean)
  have ex: "bodyText (Some ''Fixtures'') = ''Fixtures''" "bodyText (Some ''123456'') = ''123456''"
    "bodyText (Some ''12345'') = ''12345''" "bodyText (Some ''  12345  '') = ''12345''"
    "bodyText (Some [CHR 0x09, CHR ''a'', CHR '' '', CHR ''b'', CHR 0x0A]) = ''a b''"
    "bodyText None = []"
    by (simp_all add: bodyText_def trim_def is_space_def)
  show ?thesis
    using clean by (simp add: acceptable_def ex)
qed

theorem C1_classifier_boundary_witness:
  "bodyText (Some '' '') = []
   \<and> \<not> success (testUrl (Response 200 ''Untitled'' (Some '' '')))
   \<and> \<not> success (testUrl_report (Response 200 ''Untitled'' (Some '' '')))
   \<and> success (testUrl (Response 200 ''Club Honours'' (Some '' '')))
   \<and> success (testUrl_report (Response 200 ''Club Honours'' (Some '' '')))
   \<and> \<not> is_space (hd ''Next game'') \<and> \<not> is_space (last ''Next game'')
   \<and> bodyText (Some ''Next game'') = ''Next game''
   \<and> success (testUrl (Response 200 ''Untitled'' (Some ''Next game'')))"
proof -
  have e: "bodyText (Some '' '') = []"
    by (simp add: bodyText_def trim_def is_space_def)
  have c: "\<not> is_space (hd ''Next game'') \<and> \<not> is_space (last ''Next game'')"
    by (simp add: is_space_def)
  have "success (testUrl (Response 200 ''Untitled'' (Some ''Next game''))) = (length ''Next game'' > 5)"
    and "bodyText (Some ''Next game'') = ''Next game''"
    using c C1_classifier_boundary [of "''Untitled''" "Some '' ''" "''Next game''"] by blast+
  then show ?thesis
    using e c C1_classifier_boundary [of "''Untitled''" "Some '' ''" "''Next game''"] by simp
qed

lemma safe_nth_code:
  "i < length s \<Longrightarrow> safeSectionName s ! i = (if is_alnum (s ! i) then s ! i else CHR ''_'')"
  by (simp add: safeSectionName_def)

lemma safe_chars:
  "c \<in> set (safeSectionName s) \<Longrightarrow> c = CHR ''_'' \<or> is_alnum c"
  by (auto simp: safeSectionName_def split: if_splits)

lemma safe_same: "(\<forall>c\<in>set s. is_alnum c) \<Longrightarrow> safeSectionName s = s"
  by (induction s) (simp_all add: safeSectionName_def)

text \<open>
  C9. The file name is a function of section name and page number: the sanitized
  section name for page 0, the sanitized section name followed by \<open>_pageN\<close> for page
  \<open>N > 0\<close>; \<open>season2022\<close> gives \<open>season2022\<close> and \<open>season2022_page5\<close>. Sanitizing
  keeps the length, keeps every letter and digit where it is (the characters with codes
  97 to 122, 65 to 90 and 48 to 57) and puts \<open>_\<close> in the place of every other character,
  so the name for page 0 is made of letters, digits and \<open>_\<close> only, and a section name of
  letters and digits is its own file name. All 62 letters and digits are kept; slash,
  blank, dot, hyphen and the like become \<open>_\<close>.
\<close>

theorem C9_filename:
  "generateFilename s 0 = safeSectionName s
   \<and> (0 < n \<longrightarrow> generateFilename s n = safeSectionName s @ ''_page'' @ show_nat n)
   \<and> generateFilename ''season2022'' 0 = ''season2022''
   \<and> generateFilename ''season2022'' 5 = ''season2022_page5''
   \<and> length (generateFilename s 0) = length s
   \<and> (\<forall>i<length s. generateFilename s 0 ! i =
        (if (97 \<le> (of_char (s ! i) :: nat) \<and> (of_char (s ! i) :: nat) \<le> 122)
            \<or> (65 \<le> (of_char (s ! i) :: nat) \<and> (of_char (s ! i) :: nat) \<le> 90)
            \<or> (48 \<le> (of_char (s ! i) :: nat) \<and> (of_char (s ! i) :: nat) \<le> 57)
         then s ! i else CHR ''_''))
   \<and> (\<forall>c\<in>set (generateFilename s 0). c = CHR ''_''
          \<or> (97 \<le> (of_char c :: nat) \<and> (of_char c :: nat) \<le> 122)
          \<or> (65 \<le> (of_char c :: nat) \<and> (of_char c :: nat) \<le> 90)
          \<or> (48 \<le> (of_char c :: nat) \<and> (of_char c :: nat) \<le> 57))
   \<and> ((\<forall>c\<in>set s. (97 \<le> (of_char c :: nat) \<and> (of_char c :: nat) \<le> 122)
          \<or> (65 \<le> (of_char c :: nat) \<and> (of_char c :: nat) \<le> 90)
          \<or> (48 \<le> (of_char c :: nat) \<and> (of_char c :: nat) \<le> 57)) \<longrightarrow>
        generateFilename s 0 = s \<and> (0 < n \<longrightarrow> generateFilename s n = s @ ''_page'' @ show_nat n))
   \<and> generateFilename ''abcdefghijklmnopqrstuvwxyzABCDEFGHIJKLMNOPQRSTUVWXYZ0123456789'' 0
        = ''abcdefghijklmnopqrstuvwxyzABCDEFGHIJKLMNOPQRSTUVWXYZ0123456789''
   \<and> generateFilename ''/ .-_:?&=%#@!~+`{[^'' 0 = ''___________________''
   \<and> generateFilename ''a/b'' 0 = ''a_b''
   \<and> generateFilename ''top 25'' 0 = ''top_25''
   \<and> generateFilename ''../x.y-z'' 2 = ''___x_y_z_page2''
   \<and> generateFilename ''History1'' 10 = ''History1_page10''"
proof -
  have g0: "generateFilename s 0 = safeSectionName s"
    by (simp add: generateFilename_def)
  have ex: "safeSectionName ''season2022'' = ''season2022''" "safeSectionName ''a/b'' = ''a_b''"
    "safeSectionName ''top 25'' = ''top_25''" "safeSectionName ''../x.y-z'' = ''___x_y_z''"
    "safeSectionName ''History1'' = ''History1''"
    "safeSectionName ''abcdefghijklmnopqrstuvwxyzABCDEFGHIJKLMNOPQRSTUVWXYZ0123456789''
        = ''abcdefghijklmnopqrstuvwxyzABCDEFGHIJKLMNOPQRSTUVWXYZ0123456789''"
    "safeSectionName ''/ .-_:?&=%#@!~+`{[^'' = ''___________________''"
    by (simp_all add: safeSectionName_def is_alnum_def)
  have num: "show_nat 5 = ''5''" "show_nat 2 = ''2''" "show_nat 10 = ''10''"
    by (simp_all add: show_nat.simps digit_char_def)
  have len: "length (safeSectionName s) = length s"
    by (simp add: safeSectionName_def)
  have nth: "\<forall>i<length s. safeSectionName s ! i =
        (if (97 \<le> (of_char (s ! i) :: nat) \<and> (of_char (s ! i) :: nat) \<le> 122)
            \<or> (65 \<le> (of_char (s ! i) :: nat) \<and> (of_char (s ! i) :: nat) \<le> 90)
            \<or> (48 \<le> (of_char (s ! i) :: nat) \<and> (of_char (s ! i) :: nat) \<le> 57)
         then s ! i else CHR ''_'')"
    using safe_nth_code [of _ s] by (simp add: is_alnum_def Let_def)
  have chars: "\<forall>c\<in>set (safeSectionName s). c = CHR ''_''
          \<or> (97 \<le> (of_char c :: nat) \<and> (of_char c :: nat) \<le> 122)
          \<or> (65 \<le> (of_char c :: nat) \<and> (of_char c :: nat) \<le> 90)
          \<or> (48 \<le> (of_char c :: nat) \<and> (of_char c :: nat) \<le> 57)"
    using safe_chars [of _ s] by (auto simp: is_alnum_def Let_def)
  have same: "(\<forall>c\<in>set s. (97 \<le> (of_char c :: nat) \<and> (of_char c :: nat) \<le> 122)
          \<or> (65 \<le> (of_char c :: nat) \<and> (of_char c :: nat) \<le> 90)
          \<or> (48 \<le> (of_char c :: nat) \<and> (of_char c :: nat) \<le> 57)) \<longrightarrow> safeSectionName s = s"
    using safe_same [of s] by (simp add: is_alnum_def Let_def)
  have gen: "0 < n \<longrightarrow> generateFilename s n = safeSectionName s @ ''_page'' @ show_nat n"
    by (simp add: generateFilename_def)
  have exs: "generateFilename ''season2022'' 0 = ''season2022''"
    "generateFilename ''season2022'' 5 = ''season2022_page5''"
    "generateFilename ''abcdefghijklmnopqrstuvwxyzABCDEFGHIJKLMNOPQRSTUVWXYZ0123456789'' 0
        = ''abcdefghijklmnopqrstuvwxyzABCDEFGHIJKLMNOPQRSTUVWXYZ0123456789''"
    "generateFilename ''/ .-_:?&=%#@!~+`{[^'' 0 = ''___________________''"
    "generateFilename ''a/b'' 0 = ''a_b''" "generateFilename ''top 25'' 0 = ''top_25''"
    "generateFilename ''../x.y-z'' 2 = ''___x_y_z_page2''"
    "generateFilename ''History1'' 10 = ''History1_page10''"
    by (simp_all add: generateFilename_def ex num)
  from same gen have same': "(\<forall>c\<in>set s. (97 \<le> (of_char c :: nat) \<and> (of_char c :: nat) \<le> 122)
          \<or> (65 \<le> (of_char c :: nat) \<and> (of_char c :: nat) \<le> 90)
          \<or> (48 \<le> (of_char c :: nat) \<and> (of_char c :: nat) \<le> 57)) \<longrightarrow>
        safeSectionName s = s \<and> (0 < n \<longrightarrow> generateFilename s n = s @ ''_page'' @ show_nat n)"
    by auto
  show ?thesis
    unfolding g0 by (intro conjI refl gen exs len nth chars same')
qed

theorem C9_filename_witness:
  "(0::nat) < 12 \<and> generateFilename ''top 25'' 12 = ''top_25_page12''
   \<and> generateFilename ''everyplayer'' 0 = ''everyplayer''
   \<and> generateFilename ''everyplayer'' 12 = ''everyplayer_page12''
   \<and> generateFilename ''a/b'' 0 = ''a_b''"
proof -
  have "safeSectionName ''top 25'' = ''top_25''"
    by (simp add: safeSectionName_def is_alnum_def)
  moreover have n: "show_nat 12 = ''12''"
    by (simp add: show_nat.simps digit_char_def)
  ultimately have a: "generateFilename ''top 25'' 12 = ''top_25_page12''"
    using C9_filename [of "''top 25''" 12, THEN conjunct2, THEN conjunct1] by simp
  have s: "\<forall>c\<in>set ''everyplayer''. (97 \<le> (of_char c :: nat) \<and> (of_char c :: nat) \<le> 122)
          \<or> (65 \<le> (of_char c :: nat) \<and> (of_char c :: nat) \<le> 90)
          \<or> (48 \<le> (of_char c :: nat) \<and> (of_char c :: nat) \<le> 57)"
    by simp
  have "generateFilename ''everyplayer'' 0 = ''everyplayer''
      \<and> ((0::nat) < 12 \<longrightarrow>
          generateFilename ''everyplayer'' 12 = ''everyplayer'' @ ''_page'' @ show_nat 12)"
    using s C9_filename [of "''everyplayer''" 12, THEN conjunct2, THEN conjunct2, THEN conjunct2,
      THEN conjunct2, THEN conjunct2, THEN conjunct2, THEN conjunct2, THEN conjunct1]
    by (rule rev_mp)
  then have b: "generateFilename ''everyplayer'' 0 = ''everyplayer''
      \<and> generateFilename ''everyplayer'' 12 = ''everyplayer_page12''"
    by (simp add: n)
  have c: "generateFilename ''a/b'' 0 = ''a_b''"
    by (simp add: generateFilename_def safeSectionName_def is_alnum_def)
  show ?thesis
    using a b c by simp
qed

subsection \<open>Pagination probing\<close>

lemma probe_pages_success:
  "pageNum \<le> maxP \<Longrightarrow> accepted fetch name pageNum \<Longrightarrow>
   probe_pages fetch name maxP a b pageNum s =
   probe_pages fetch name maxP a b (pageNum + 1)
     (s\<lparr>probed := probed s @ [pageNum],
        pages := pages s @ [\<lparr>pd_url = pageUrl name pageNum, pd_pageNumber = pageNum,
           pd_title = (case testUrl (fetch (pageUrl name pageNum)) of Success t _ \<Rightarrow> t | _ \<Rightarrow> []),
           pd_contentLength = (case testUrl (fetch (pageUrl name pageNum)) of Success _ n \<Rightarrow> n | _ \<Rightarrow> 0)\<rparr>],
        totalPages := totalPages s + 1, foundAnyPages := True, consecutiveFailures := 0\<rparr>)"
  by (subst probe_pages.simps) (auto split: test_result.splits)

lemma probe_pages_failure:
  "pageNum \<le> maxP \<Longrightarrow> \<not> accepted fetch name pageNum \<Longrightarrow>
   probe_pages fetch name maxP a b pageNum s =
   (let s' = s\<lparr>probed := probed s @ [pageNum], consecutiveFailures := consecutiveFailures s + 1\<rparr>
    in if foundAnyPages s \<and> consecutiveFailures s + 1 \<ge> a then s'
       else if \<not> foundAnyPages s \<and> consecutiveFailures s + 1 \<ge> b then s'
       else probe_pages fetch name maxP a b (pageNum + 1) s')"
  by (subst probe_pages.simps) (auto split: test_result.splits simp: Let_def)

lemma failures_found:
  "foundAnyPages s \<Longrightarrow> consecutiveFailures s + d = a \<Longrightarrow> 0 < d \<Longrightarrow> pageNum + d \<le> maxP + 1 \<Longrightarrow>
   \<forall>k. pageNum \<le> k \<and> k < pageNum + d \<longrightarrow> \<not> accepted fetch name k \<Longrightarrow>
   probe_pages fetch name maxP a b pageNum s =
     s\<lparr>probed := probed s @ [pageNum ..< pageNum + d], consecutiveFailures := a\<rparr>"
proof (induction d arbitrary: pageNum s)
  case 0
  then show ?case by simp
next
  case (Suc d)
  have le: "pageNum \<le> maxP" using Suc.prems by simp
  have rej: "\<not> accepted fetch name pageNum" using Suc.prems by simp
  show ?case
  proof (cases "d = 0")
    case True
    then show ?thesis using Suc.prems le rej
      by (simp add: probe_pages_failure Let_def)
  next
    case False
    let ?s = "s\<lparr>probed := probed s @ [pageNum], consecutiveFailures := consecutiveFailures s + 1\<rparr>"
    have "probe_pages fetch name maxP a b pageNum s = probe_pages fetch name maxP a b (pageNum + 1) ?s"
      using Suc.prems False le rej by (simp add: probe_pages_failure Let_def)
    also have "\<dots> = ?s\<lparr>probed := probed ?s @ [pageNum + 1 ..< pageNum + 1 + d], consecutiveFailures := a\<rparr>"
      using Suc.prems False by (intro Suc.IH) auto
    also have "\<dots> = s\<lparr>probed := probed s @ [pageNum ..< pageNum + Suc d], consecutiveFailures := a\<rparr>"
      by (simp add: upt_conv_Cons)
    finally show ?thesis .
  qed
qed


lemma failures_none:
  "\<not> foundAnyPages s \<Longrightarrow> consecutiveFailures s + d = b \<Longrightarrow> 0 < d \<Longrightarrow> pageNum + d \<le> maxP + 1 \<Longrightarrow>
   \<forall>k. pageNum \<le> k \<and> k < pageNum + d \<longrightarrow> \<not> accepted fetch name k \<Longrightarrow>
   probe_pages fetch name maxP a b pageNum s =
     s\<lparr>probed := probed s @ [pageNum ..< pageNum + d], consecutiveFailures := b\<rparr>"
proof (induction d arbitrary: pageNum s)
  case 0
  then show ?case by simp
next
  case (Suc d)
  have le: "pageNum \<le> maxP" using Suc.prems by simp
  have rej: "\<not> accepted fetch name pageNum" using Suc.prems by simp
  show ?case
  proof (cases "d = 0")
    case True
    then show ?thesis using Suc.prems le rej
      by (simp add: probe_pages_failure Let_def)
  next
    case False
    let ?s = "s\<lparr>probed := probed s @ [pageNum], consecutiveFailures := consecutiveFailures s + 1\<rparr>"
    have "probe_pages fetch name maxP a b pageNum s = probe_pages fetch name maxP a b (pageNum + 1) ?s"
      using Suc.prems False le rej by (simp add: probe_pages_failure Let_def)
    also have "\<dots> = ?s\<lparr>probed := probed ?s @ [pageNum + 1 ..< pageNum + 1 + d], consecutiveFailures := b\<rparr>"
      using Suc.prems False by (intro Suc.IH) auto
    also have "\<dots> = s\<lparr>probed := probed s @ [pageNum ..< pageNum + Suc d], consecutiveFailures := b\<rparr>"
      by (simp add: upt_conv_Cons)
    finally show ?thesis .
  qed
qed

lemma stop_after_accepted:
  "n = pageNum + d \<Longrightarrow> n \<notin> set (probed s) \<Longrightarrow>
   n \<in> set (probed (probe_pages fetch name maxP a b pageNum s)) \<Longrightarrow>
   accepted fetch name n \<Longrightarrow> \<forall>k. n < k \<and> k \<le> n + a \<longrightarrow> \<not> accepted fetch name k \<Longrightarrow>
   n + a \<le> maxP \<Longrightarrow> 0 < a \<Longrightarrow>
   probed (probe_pages fetch name maxP a b pageNum s) = probed s @ [pageNum ..< n + a + 1]"
proof (induction d arbitrary: pageNum s)
  case 0
  then have n: "pageNum = n" by simp
  let ?s = "s\<lparr>probed := probed s @ [n],
        pages := pages s @ [\<lparr>pd_url = pageUrl name n, pd_pageNumber = n,
           pd_title = (case testUrl (fetch (pageUrl name n)) of Success t _ \<Rightarrow> t | _ \<Rightarrow> []),
           pd_contentLength = (case testUrl (fetch (pageUrl name n)) of Success _ n \<Rightarrow> n | _ \<Rightarrow> 0)\<rparr>],
        totalPages := totalPages s + 1, foundAnyPages := True, consecutiveFailures := 0\<rparr>"
  have "probe_pages fetch name maxP a b pageNum s = probe_pages fetch name maxP a b (n + 1) ?s"
    using 0 n by (simp add: probe_pages_success)
  also have "\<dots> = ?s\<lparr>probed := probed ?s @ [n + 1 ..< n + 1 + a], consecutiveFailures := a\<rparr>"
    using 0 by (intro failures_found) auto
  finally show ?case
    using n by (simp add: upt_conv_Cons)
next
  case (Suc d)
  have le: "pageNum \<le> maxP" and ne: "pageNum \<noteq> n" using Suc.prems by simp_all
  show ?case
  proof (cases "accepted fetch name pageNum")
    case True
    let ?s = "s\<lparr>probed := probed s @ [pageNum],
        pages := pages s @ [\<lparr>pd_url = pageUrl name pageNum, pd_pageNumber = pageNum,
           pd_title = (case testUrl (fetch (pageUrl name pageNum)) of Success t _ \<Rightarrow> t | _ \<Rightarrow> []),
           pd_contentLength = (case testUrl (fetch (pageUrl name pageNum)) of Success _ n \<Rightarrow> n | _ \<Rightarrow> 0)\<rparr>],
        totalPages := totalPages s + 1, foundAnyPages := True, consecutiveFailures := 0\<rparr>"
    have eq: "probe_pages fetch name maxP a b pageNum s = probe_pages fetch name maxP a b (pageNum + 1) ?s"
      using le True by (simp add: probe_pages_success)
    have "probed (probe_pages fetch name maxP a b (pageNum + 1) ?s) = probed ?s @ [pageNum + 1 ..< n + a + 1]"
      using Suc.prems ne unfolding eq by (intro Suc.IH) auto
    then show ?thesis
      using Suc.prems unfolding eq by (simp add: upt_conv_Cons)
  next
    case False
    let ?s = "s\<lparr>probed := probed s @ [pageNum], consecutiveFailures := consecutiveFailures s + 1\<rparr>"
    have step: "probe_pages fetch name maxP a b pageNum s = ?s
        \<or> probe_pages fetch name maxP a b pageNum s = probe_pages fetch name maxP a b (pageNum + 1) ?s"
      using le False by (simp add: probe_pages_failure Let_def)
    have "probe_pages fetch name maxP a b pageNum s \<noteq> ?s"
      using Suc.prems(3) Suc.prems(2) ne by auto
    with step have eq: "probe_pages fetch name maxP a b pageNum s = probe_pages fetch name maxP a b (pageNum + 1) ?s"
      by simp
    have "probed (probe_pages fetch name maxP a b (pageNum + 1) ?s) = probed ?s @ [pageNum + 1 ..< n + a + 1]"
      using Suc.prems ne unfolding eq by (intro Suc.IH) auto
    then show ?thesis
      using Suc.prems unfolding eq by (simp add: upt_conv_Cons)
  qed
qed

lemma probed_from:
  "x \<in> set (probed (probe_pages fetch name maxP a b pageNum s)) \<Longrightarrow>
   x \<in> set (probed s) \<or> pageNum \<le> x"
proof (induction fetch name maxP a b pageNum s rule: probe_pages.induct)
  case (1 fetch name maxP a b pageNum s)
  show ?case
  proof (cases "pageNum \<le> maxP")
    case False
    then show ?thesis using "1.prems" by (simp add: probe_pages.simps)
  next
    case le: True
    show ?thesis
    proof (cases "testUrl (fetch (pageUrl name pageNum))")
      case (Success t c)
      then show ?thesis
        using "1.IH"(1) [OF le Success] "1.prems" le
        by (subst (asm) (2) probe_pages.simps) auto
    next
      case (Failed st)
      then show ?thesis
        using "1.IH"(2) [OF le Failed refl] "1.prems" le
        by (subst (asm) (2) probe_pages.simps) (auto simp: Let_def split: if_splits)
    next
      case (Errored m)
      then show ?thesis
        using "1.IH"(3) [OF le Errored refl] "1.prems" le
        by (subst (asm) (2) probe_pages.simps) (auto simp: Let_def split: if_splits)
    qed
  qed
qed

lemma two_then_five:
  assumes "accepted fetch name p" "accepted fetch name (Suc p)"
    and "\<forall>k\<in>{p + 2..p + 6}. \<not> accepted fetch name k" and "p + 6 \<le> maxP"
  shows "probed (probe_pages fetch name maxP 5 b p s) = probed s @ [p ..< p + 7]"
proof -
  let ?pd = "\<lambda>k. \<lparr>pd_url = pageUrl name k, pd_pageNumber = k,
           pd_title = (case testUrl (fetch (pageUrl name k)) of Success t _ \<Rightarrow> t | _ \<Rightarrow> []),
           pd_contentLength = (case testUrl (fetch (pageUrl name k)) of Success _ n \<Rightarrow> n | _ \<Rightarrow> 0)\<rparr>"
  let ?s1 = "s\<lparr>probed := probed s @ [p], pages := pages s @ [?pd p],
        totalPages := totalPages s + 1, foundAnyPages := True, consecutiveFailures := 0\<rparr>"
  let ?s2 = "?s1\<lparr>probed := probed ?s1 @ [p + 1], pages := pages ?s1 @ [?pd (p + 1)],
        totalPages := totalPages ?s1 + 1, foundAnyPages := True, consecutiveFailures := 0\<rparr>"
  have "probe_pages fetch name maxP 5 b p s = probe_pages fetch name maxP 5 b (p + 1) ?s1"
    using assms by (intro probe_pages_success) auto
  also have "\<dots> = probe_pages fetch name maxP 5 b (p + 1 + 1) ?s2"
    using assms by (intro probe_pages_success) auto
  also have "\<dots> = ?s2\<lparr>probed := probed ?s2 @ [p + 1 + 1 ..< p + 1 + 1 + 5], consecutiveFailures := 5\<rparr>"
    using assms by (intro failures_found) auto
  finally show ?thesis
    using assms by (simp add: upt_rec [of p] upt_rec [of "Suc p"] add.commute)
qed


lemma stop_after_accepted_from_1:
  assumes "n \<in> set (probed (probe_pages fetch name maxP a b 1 s))" "probed s = []"
    and "accepted fetch name n" "\<forall>k\<in>{n + 1..n + a}. \<not> accepted fetch name k"
    and "n + a \<le> maxP" "0 < a"
  shows "probed (probe_pages fetch name maxP a b 1 s) = [1 ..< n + a + 1]"
proof -
  have "1 \<le> n"
    using probed_from [OF assms(1)] assms(2) by simp
  then have "n = 1 + (n - 1)" by simp
  then have "probed (probe_pages fetch name maxP a b 1 s) = probed s @ [1 ..< n + a + 1]"
    using assms by (intro stop_after_accepted [where d = "n - 1"]) auto
  then show ?thesis using assms(2) by simp
qed

lemma base_then_five:
  assumes "\<forall>k\<in>{1..5}. \<not> accepted fetch name k" "5 \<le> maxP"
    and "probed s = []" "foundAnyPages s" "consecutiveFailures s = 0"
  shows "probed (probe_pages fetch name maxP 5 b 1 s) = [1, 2, 3, 4, 5]"
  using assms failures_found [of s 5 5 1 maxP fetch name b] by (auto simp: upt_rec)

text \<open>
  C4. Once a page of the section has been accepted, probing stops after 5 consecutive
  probes that are not accepted, in \<^verbatim>\<open>testMissingSections\<close> and in
  \<^verbatim>\<open>testTargetedSections\<close>: when page \<open>n\<close> is probed and accepted and the pages
  \<open>n + 1, \<dots>, n + 5\<close> (below the ceiling) are not, the pages probed are exactly
  \<open>1, \<dots>, n + 5\<close>. With pages 1 and 2 accepted and pages 3 to 7 rejected, the last
  page probed is \<open>3 + 5 - 1 = 7\<close> and page \<open>3 + 5 = 8\<close> is never probed. In
  \<^verbatim>\<open>testTargetedSections\<close> an accepted base page counts as a page found.
\<close>

theorem C4_early_stop:
  "(n \<in> set (probed (testMissingSections_section fetch name)) \<and> accepted fetch name n
      \<and> (\<forall>k\<in>{n + 1..n + 5}. \<not> accepted fetch name k) \<and> n + 5 \<le> 25
    \<longrightarrow> probed (testMissingSections_section fetch name) = [1 ..< n + 5 + 1])
 \<and> (n \<in> set (probed (testTargetedSections_section fetch name)) \<and> accepted fetch name n
      \<and> (\<forall>k\<in>{n + 1..n + 5}. \<not> accepted fetch name k) \<and> n + 5 \<le> 30
    \<longrightarrow> probed (testTargetedSections_section fetch name) = [1 ..< n + 5 + 1])
 \<and> (accepted fetch name 1 \<and> accepted fetch name 2 \<and> (\<forall>k\<in>{3..7}. \<not> accepted fetch name k)
    \<longrightarrow> probed (testMissingSections_section fetch name) = [1, 2, 3, 4, 5, 6, 7]
      \<and> last (probed (testMissingSections_section fetch name)) = 3 + 5 - 1
      \<and> 3 + 5 \<notin> set (probed (testMissingSections_section fetch name))
      \<and> probed (testTargetedSections_section fetch name) = [1, 2, 3, 4, 5, 6, 7]
      \<and> last (probed (testTargetedSections_section fetch name)) = 3 + 5 - 1
      \<and> 3 + 5 \<notin> set (probed (testTargetedSections_section fetch name)))
 \<and> (success (testUrl (fetch (baseUrl @ name @ ''/''))) \<and> (\<forall>k\<in>{1..5}. \<not> accepted fetch name k)
    \<longrightarrow> probed (testTargetedSections_section fetch name) = [1, 2, 3, 4, 5])"
proof (intro conjI impI)
  assume "n \<in> set (probed (testMissingSections_section fetch name)) \<and> accepted fetch name n
      \<and> (\<forall>k\<in>{n + 1..n + 5}. \<not> accepted fetch name k) \<and> n + 5 \<le> 25"
  then show "probed (testMissingSections_section fetch name) = [1 ..< n + 5 + 1]"
    unfolding testMissingSections_section_def
    by (intro stop_after_accepted_from_1) auto
next
  assume "n \<in> set (probed (testTargetedSections_section fetch name)) \<and> accepted fetch name n
      \<and> (\<forall>k\<in>{n + 1..n + 5}. \<not> accepted fetch name k) \<and> n + 5 \<le> 30"
  then show "probed (testTargetedSections_section fetch name) = [1 ..< n + 5 + 1]"
    unfolding testTargetedSections_section_def Let_def
    by (intro stop_after_accepted_from_1) (auto split: test_result.splits)
next
  assume h: "accepted fetch name 1 \<and> accepted fetch name 2 \<and> (\<forall>k\<in>{3..7}. \<not> accepted fetch name k)"
  from h have a1: "accepted fetch name 1"
    by blast
  from h have "accepted fetch name 2"
    by blast
  then have a2: "accepted fetch name (Suc 1)"
    by (simp only: Suc_1)
  from h have "\<forall>k\<in>{3..7}. \<not> accepted fetch name k"
    by blast
  then have r: "\<forall>k\<in>{1 + 2..1 + 6}. \<not> accepted fetch name k"
    by simp
  have m: "probed (testMissingSections_section fetch name) = [1, 2, 3, 4, 5, 6, 7]"
    unfolding testMissingSections_section_def
    by (subst two_then_five [OF a1 a2 r]) (simp_all add: upt_rec)
  have t: "probed (testTargetedSections_section fetch name) = [1, 2, 3, 4, 5, 6, 7]"
    unfolding testTargetedSections_section_def Let_def
    by (subst two_then_five [OF a1 a2 r]) (simp_all add: upt_rec split: test_result.splits)
  show "probed (testMissingSections_section fetch name) = [1, 2, 3, 4, 5, 6, 7]" by (rule m)
  show "last (probed (testMissingSections_section fetch name)) = 3 + 5 - 1" by (simp add: m)
  show "3 + 5 \<notin> set (probed (testMissingSections_section fetch name))" by (simp add: m)
  show "probed (testTargetedSections_section fetch name) = [1, 2, 3, 4, 5, 6, 7]" by (rule t)
  show "last (probed (testTargetedSections_section fetch name)) = 3 + 5 - 1" by (simp add: t)
  show "3 + 5 \<notin> set (probed (testTargetedSections_section fetch name))" by (simp add: t)
next
  assume h: "success (testUrl (fetch (baseUrl @ name @ ''/''))) \<and> (\<forall>k\<in>{1..5}. \<not> accepted fetch name k)"
  show "probed (testTargetedSections_section fetch name) = [1, 2, 3, 4, 5]"
    unfolding testTargetedSections_section_def Let_def
    by (rule base_then_five) (use h in \<open>auto split: test_result.splits\<close>)
qed

theorem C4_early_stop_witness:
  "accepted (\<lambda>u. if u = pageUrl ''season2022'' 1 \<or> u = pageUrl ''season2022'' 2
                  then Response 200 ''Season 2022'' None else Response 404 [] None) ''season2022'' 1
   \<and> accepted (\<lambda>u. if u = pageUrl ''season2022'' 1 \<or> u = pageUrl ''season2022'' 2
                  then Response 200 ''Season 2022'' None else Response 404 [] None) ''season2022'' 2
   \<and> probed (testMissingSections_section
        (\<lambda>u. if u = pageUrl ''season2022'' 1 \<or> u = pageUrl ''season2022'' 2
              then Response 200 ''Season 2022'' None else Response 404 [] None) ''season2022'')
       = [1, 2, 3, 4, 5, 6, 7]
   \<and> 8 \<notin> set (probed (testTargetedSections_section
        (\<lambda>u. if u = pageUrl ''season2022'' 1 \<or> u = pageUrl ''season2022'' 2
              then Response 200 ''Season 2022'' None else Response 404 [] None) ''season2022''))
   \<and> success (testUrl (Response 200 ''History'' None))
   \<and> probed (testTargetedSections_section
        (\<lambda>u. if u = baseUrl @ ''History1/'' then Response 200 ''History'' None
              else Response 404 [] None) ''History1'')
       = [1, 2, 3, 4, 5]"
proof -
  let ?f = "\<lambda>u. if u = pageUrl ''season2022'' 1 \<or> u = pageUrl ''season2022'' 2
              then Response 200 ''Season 2022'' None else Response 404 [] None"
  let ?g = "\<lambda>u. if u = baseUrl @ ''History1/'' then Response 200 ''History'' None
              else Response 404 [] None"
  have a1: "accepted ?f ''season2022'' 1" and a2: "accepted ?f ''season2022'' 2"
    by (simp_all add: acceptable_def)
  have r: "\<forall>k\<in>{3..7}. \<not> accepted ?f ''season2022'' k"
  proof
    fix k :: nat
    assume "k \<in> {3..7}"
    then have "k = 3 \<or> k = 4 \<or> k = 5 \<or> k = 6 \<or> k = 7"
      by auto
    then show "\<not> accepted ?f ''season2022'' k"
      by (auto simp: pageUrl_def baseUrl_def show_nat.simps digit_char_def)
  qed
  have b: "success (testUrl (?g (baseUrl @ ''History1'' @ ''/'')))"
    by (simp add: acceptable_def)
  have rg: "\<forall>k\<in>{1..5}. \<not> accepted ?g ''History1'' k"
  proof
    fix k :: nat
    assume "k \<in> {1..5}"
    then have "k = 1 \<or> k = 2 \<or> k = 3 \<or> k = 4 \<or> k = 5"
      by auto
    then show "\<not> accepted ?g ''History1'' k"
      by (auto simp: pageUrl_def baseUrl_def show_nat.simps digit_char_def)
  qed
  have "probed (testTargetedSections_section ?g ''History1'') = [1, 2, 3, 4, 5]"
    using b rg C4_early_stop [of 0 ?g "''History1''"] by blast
  then show ?thesis
    using a1 a2 r b C4_early_stop [of 2 ?f "''season2022''"] by simp
qed

lemma none_then_stop:
  assumes "\<forall>k\<in>{1..b}. \<not> accepted fetch name k" "b \<le> maxP" "0 < b"
    and "probed s = []" "\<not> foundAnyPages s" "consecutiveFailures s = 0"
  shows "probe_pages fetch name maxP a b 1 s = s\<lparr>probed := [1 ..< 1 + b], consecutiveFailures := b\<rparr>"
  using assms failures_none [of s b b 1 maxP fetch name a] by auto

lemma one_then_stop:
  assumes "accepted fetch name 1" "\<forall>k\<in>{2..a + 1}. \<not> accepted fetch name k" "a + 1 \<le> maxP" "0 < a"
    and "probed s = []"
  shows "consecutiveFailures (probe_pages fetch name maxP a b 1 s) = a"
proof -
  let ?s = "s\<lparr>probed := probed s @ [1],
        pages := pages s @ [\<lparr>pd_url = pageUrl name 1, pd_pageNumber = 1,
           pd_title = (case testUrl (fetch (pageUrl name 1)) of Success t _ \<Rightarrow> t | _ \<Rightarrow> []),
           pd_contentLength = (case testUrl (fetch (pageUrl name 1)) of Success _ n \<Rightarrow> n | _ \<Rightarrow> 0)\<rparr>],
        totalPages := totalPages s + 1, foundAnyPages := True, consecutiveFailures := 0\<rparr>"
  have "probe_pages fetch name maxP a b 1 s = probe_pages fetch name maxP a b (1 + 1) ?s"
    using assms by (intro probe_pages_success) auto
  also have "\<dots> = ?s\<lparr>probed := probed ?s @ [1 + 1 ..< 1 + 1 + a], consecutiveFailures := a\<rparr>"
    using assms by (intro failures_found) auto
  finally show ?thesis by simp
qed

text \<open>
  C7 (as amended). While no page of the section has been accepted, probing stops after
  10 consecutive failures in \<^verbatim>\<open>testMissingSections\<close> and after 8 in
  \<^verbatim>\<open>testTargetedSections\<close>; both thresholds are larger than the 5 consecutive failures
  that stop the probing once a page has been accepted.
\<close>

theorem C7_no_page_threshold:
  "((\<forall>k\<in>{1..10}. \<not> accepted fetch name k) \<longrightarrow>
      probed (testMissingSections_section fetch name) = [1, 2, 3, 4, 5, 6, 7, 8, 9, 10]
    \<and> consecutiveFailures (testMissingSections_section fetch name) = 10
    \<and> \<not> foundAnyPages (testMissingSections_section fetch name))
 \<and> (\<not> success (testUrl (fetch (baseUrl @ name @ ''/''))) \<and> (\<forall>k\<in>{1..8}. \<not> accepted fetch name k) \<longrightarrow>
      probed (testTargetedSections_section fetch name) = [1, 2, 3, 4, 5, 6, 7, 8]
    \<and> consecutiveFailures (testTargetedSections_section fetch name) = 8
    \<and> \<not> foundAnyPages (testTargetedSections_section fetch name))
 \<and> (accepted fetch name 1 \<and> (\<forall>k\<in>{2..6}. \<not> accepted fetch name k) \<longrightarrow>
      consecutiveFailures (testMissingSections_section fetch name) = 5
    \<and> consecutiveFailures (testTargetedSections_section fetch name) = 5)"
proof (intro conjI impI)
  assume h: "\<forall>k\<in>{1..10}. \<not> accepted fetch name k"
  have "testMissingSections_section fetch name =
      \<lparr>probed = [1 ..< 1 + 10], pages = [], totalPages = 0, foundAnyPages = False, consecutiveFailures = 10\<rparr>"
    unfolding testMissingSections_section_def
    by (subst none_then_stop) (use h in simp_all)
  then show "probed (testMissingSections_section fetch name) = [1, 2, 3, 4, 5, 6, 7, 8, 9, 10]"
    and "consecutiveFailures (testMissingSections_section fetch name) = 10"
    and "\<not> foundAnyPages (testMissingSections_section fetch name)"
    by (simp_all add: upt_rec)
next
  assume h: "\<not> success (testUrl (fetch (baseUrl @ name @ ''/''))) \<and> (\<forall>k\<in>{1..8}. \<not> accepted fetch name k)"
  then have b: "(case testUrl (fetch (baseUrl @ name @ ''/'')) of
                  Success title contentLength \<Rightarrow>
                    \<lparr>probed = [],
                     pages = [\<lparr>pd_url = baseUrl @ name @ ''/'', pd_pageNumber = 0, pd_title = title,
                               pd_contentLength = contentLength\<rparr>],
                     totalPages = 1, foundAnyPages = True, consecutiveFailures = 0\<rparr>
                | _ \<Rightarrow>
                    \<lparr>probed = [], pages = [], totalPages = 0, foundAnyPages = False,
                     consecutiveFailures = 0\<rparr>) =
         \<lparr>probed = [], pages = [], totalPages = 0, foundAnyPages = False, consecutiveFailures = 0\<rparr>"
    by (auto split: test_result.splits)
  have "testTargetedSections_section fetch name =
      \<lparr>probed = [1 ..< 1 + 8], pages = [], totalPages = 0, foundAnyPages = False, consecutiveFailures = 8\<rparr>"
    unfolding testTargetedSections_section_def Let_def b
    by (subst none_then_stop) (use h in simp_all)
  then show "probed (testTargetedSections_section fetch name) = [1, 2, 3, 4, 5, 6, 7, 8]"
    and "consecutiveFailures (testTargetedSections_section fetch name) = 8"
    and "\<not> foundAnyPages (testTargetedSections_section fetch name)"
    by (simp_all add: upt_rec)
next
  assume h: "accepted fetch name 1 \<and> (\<forall>k\<in>{2..6}. \<not> accepted fetch name k)"
  show "consecutiveFailures (testMissingSections_section fetch name) = 5"
    unfolding testMissingSections_section_def
    by (rule one_then_stop) (use h in simp_all)
  show "consecutiveFailures (testTargetedSections_section fetch name) = 5"
    unfolding testTargetedSections_section_def Let_def
    by (rule one_then_stop) (use h in \<open>simp_all split: test_result.splits\<close>)
qed

theorem C7_no_page_threshold_witness:
  "probed (testMissingSections_section (\<lambda>u. Response 404 [] None) ''gallery'')
     = [1, 2, 3, 4, 5, 6, 7, 8, 9, 10]
   \<and> probed (testTargetedSections_section (\<lambda>u. Response 404 [] None) ''gallery'')
     = [1, 2, 3, 4, 5, 6, 7, 8]
   \<and> accepted (\<lambda>u. if u = pageUrl ''gallery'' 1 then Response 200 ''Gallery'' None
                    else Response 404 [] None) ''gallery'' 1
   \<and> consecutiveFailures (testMissingSections_section
        (\<lambda>u. if u = pageUrl ''gallery'' 1 then Response 200 ''Gallery'' None
              else Response 404 [] None) ''gallery'') = 5"
proof -
  let ?g = "\<lambda>u. if u = pageUrl ''gallery'' 1 then Response 200 ''Gallery'' None
              else Response 404 [] None"
  have "\<forall>k\<in>{1..10}. \<not> accepted (\<lambda>u. Response 404 [] None) ''gallery'' k"
    and "\<not> success (testUrl ((\<lambda>u. Response 404 [] None) (baseUrl @ ''gallery'' @ ''/'')))
         \<and> (\<forall>k\<in>{1..8}. \<not> accepted (\<lambda>u. Response 404 [] None) ''gallery'' k)"
    by simp_all
  then have none: "probed (testMissingSections_section (\<lambda>u. Response 404 [] None) ''gallery'')
     = [1, 2, 3, 4, 5, 6, 7, 8, 9, 10]
   \<and> probed (testTargetedSections_section (\<lambda>u. Response 404 [] None) ''gallery'')
     = [1, 2, 3, 4, 5, 6, 7, 8]"
    using C7_no_page_threshold [of "\<lambda>u. Response 404 [] None" "''gallery''"] by blast
  have a: "accepted ?g ''gallery'' 1"
    by (simp add: acceptable_def)
  have r: "\<forall>k\<in>{2..6}. \<not> accepted ?g ''gallery'' k"
  proof
    fix k :: nat
    assume "k \<in> {2..6}"
    then have "k = 2 \<or> k = 3 \<or> k = 4 \<or> k = 5 \<or> k = 6"
      by auto
    then show "\<not> accepted ?g ''gallery'' k"
      by (auto simp: pageUrl_def baseUrl_def show_nat.simps digit_char_def)
  qed
  have "consecutiveFailures (testMissingSections_section ?g ''gallery'') = 5"
    using a r C7_no_page_threshold [of ?g "''gallery''"] by blast
  then show ?thesis
    using none a by simp
qed

text \<open>
  The claim as stated fails: with no page accepted the loops run to 10 (and 8)
  consecutive failures, which is not smaller than the 5 that stop a section whose first
  page was accepted.
\<close>

theorem C7_smaller_threshold_counterexample:
  "consecutiveFailures (testMissingSections_section (\<lambda>u. NoResponse) ''fixtures'') = 10
   \<and> consecutiveFailures (testTargetedSections_section (\<lambda>u. NoResponse) ''History1'') = 8
   \<and> consecutiveFailures (testMissingSections_section
        (\<lambda>u. if u = ''https://0002n8y.wcomhost.com/website/fixtures/page1.html''
              then Response 200 ''Fixtures'' None else NoResponse) ''fixtures'') = 5
   \<and> \<not> consecutiveFailures (testMissingSections_section (\<lambda>u. NoResponse) ''fixtures'')
       < consecutiveFailures (testMissingSections_section
        (\<lambda>u. if u = ''https://0002n8y.wcomhost.com/website/fixtures/page1.html''
              then Response 200 ''Fixtures'' None else NoResponse) ''fixtures'')"
  by (simp add: testMissingSections_section_def testTargetedSections_section_def probe_pages.simps
      pageUrl_def baseUrl_def show_nat.simps digit_char_def acceptable_def bodyText_def)

subsection \<open>The frontier\<close>

lemma next_url_Some:
  "next_url st = (Some u, st') \<Longrightarrow>
   u \<notin> set (visitedUrls st) \<and> set (visitedUrls st') = insert u (set (visitedUrls st))"
  by (auto simp: next_url_def set_add_def split: list.splits if_splits)

lemma next_url_None:
  "next_url st = (None, st') \<Longrightarrow> visitedUrls st' = visitedUrls st"
  by (auto simp: next_url_def split: list.splits if_splits)

lemma enqueue_visited: "visitedUrls (enqueue link st) = visitedUrls st"
  by (simp add: enqueue_def)

lemma run_ops_fresh:
  "distinct (run_ops ops st) \<and> set (run_ops ops st) \<inter> set (visitedUrls st) = {}"
proof (induction ops arbitrary: st)
  case Nil
  show ?case by simp
next
  case (Cons op ops)
  show ?case
  proof (cases op)
    case (Enqueue link)
    then show ?thesis
      using Cons.IH [of "enqueue link st"] by (simp add: enqueue_visited)
  next
    case Next
    obtain r st' where n: "next_url st = (r, st')"
      by (cases "next_url st")
    show ?thesis
    proof (cases r)
      case None
      then show ?thesis
        using Next n Cons.IH [of st'] next_url_None [of st st'] by simp
    next
      case (Some u)
      then show ?thesis
        using Next n Cons.IH [of st'] next_url_Some [of st u st'] by auto
    qed
  qed
qed

lemma foldl_enqueue_visited:
  "visitedUrls (foldl (\<lambda>s link. enqueue link s) st links) = visitedUrls st"
  by (induction links arbitrary: st) (simp_all add: enqueue_visited)

lemma discoverUrls_distinct:
  "discoverUrls fuel fetch st fetched = Some (out, st') \<Longrightarrow>
   distinct fetched \<Longrightarrow> set fetched \<subseteq> set (visitedUrls st) \<Longrightarrow> distinct out"
proof (induction fuel arbitrary: st fetched)
  case 0
  then show ?case by (auto split: if_splits)
next
  case (Suc fuel)
  show ?case
  proof (cases "urlQueue st = []")
    case True
    then show ?thesis using Suc.prems by simp
  next
    case False
    obtain r s1 where n: "next_url st = (r, s1)"
      by (cases "next_url st")
    show ?thesis
    proof (cases r)
      case None
      then have "discoverUrls fuel fetch s1 fetched = Some (out, st')"
        using Suc.prems(1) False n by simp
      then show ?thesis
        using Suc.IH [of s1 fetched] Suc.prems next_url_None [of st s1] n None by simp
    next
      case (Some u)
      note fr = next_url_Some [of st u s1]
      show ?thesis
      proof (cases "fetch (baseUrl @ u)")
        case None
        then have "discoverUrls fuel fetch s1 (fetched @ [u]) = Some (out, st')"
          using Suc.prems(1) False n Some by simp
        then show ?thesis
          using Suc.IH [of s1 "fetched @ [u]"] Suc.prems fr n Some by auto
      next
        case (Some anchors)
        let ?s2 = "foldl (\<lambda>s link. enqueue link s) s1 (extract_links (baseUrl @ u) anchors)"
        have "discoverUrls fuel fetch ?s2 (fetched @ [u]) = Some (out, st')"
          using Suc.prems(1) False n \<open>r = Some u\<close> Some by simp
        then show ?thesis
          using Suc.IH [of ?s2 "fetched @ [u]"] Suc.prems fr n \<open>r = Some u\<close>
          by (auto simp: foldl_enqueue_visited)
      qed
    qed
  qed
qed

text \<open>
  C2. Whatever the interleaving of enqueue and next operations, no URL is handed out by
  next more than once in a run (also when the start URLs repeat one); the same holds for
  the URLs the crawl loop fetches. Enqueue changes the queue only for a URL that is
  neither visited nor queued, and next marks the URL it hands out as visited, before the
  fetch.
\<close>

theorem C2_at_most_once:
  "distinct (run_ops ops (initial_frontier starts))
   \<and> (discoverUrls fuel fetch (initial_frontier starts) [] = Some (out, st') \<longrightarrow> distinct out)
   \<and> (urlQueue (enqueue link st) \<noteq> urlQueue st \<longrightarrow>
        link \<notin> set (visitedUrls st) \<and> link \<notin> set (urlQueue st))
   \<and> (fst (next_url st) = Some u \<longrightarrow>
        u \<in> set (visitedUrls (snd (next_url st))) \<and> u \<notin> set (visitedUrls st))"
proof (intro conjI impI)
  show "distinct (run_ops ops (initial_frontier starts))"
    using run_ops_fresh by blast
next
  assume "discoverUrls fuel fetch (initial_frontier starts) [] = Some (out, st')"
  then show "distinct out"
    by (rule discoverUrls_distinct) simp_all
next
  assume "urlQueue (enqueue link st) \<noteq> urlQueue st"
  then show "link \<notin> set (visitedUrls st)" and "link \<notin> set (urlQueue st)"
    by (auto simp: enqueue_def split: if_splits)
next
  assume h: "fst (next_url st) = Some u"
  then have "next_url st = (Some u, snd (next_url st))"
    by (cases "next_url st") simp
  from next_url_Some [OF this]
  show "u \<in> set (visitedUrls (snd (next_url st)))" and "u \<notin> set (visitedUrls st)"
    by auto
qed

theorem C2_at_most_once_witness:
  "discoverUrls 5 (\<lambda>u. Some [\<lparr>a_href = siteBase @ ''b/'', a_attr = Some ''../b/''\<rparr>])
     (initial_frontier [''a/'', ''a/'']) []
   = Some ([''a/'', ''b/''],
       \<lparr>urlQueue = [], visitedUrls = [''a/'', ''b/''], discoveredUrls = [''b/'']\<rparr>)
   \<and> distinct [''a/'', ''b/'']
   \<and> urlQueue (enqueue ''b/'' (initial_frontier [''a/''])) \<noteq> urlQueue (initial_frontier [''a/''])
   \<and> ''b/'' \<notin> set (urlQueue (initial_frontier [''a/'']))
   \<and> fst (next_url (initial_frontier [''a/''])) = Some ''a/''
   \<and> ''a/'' \<in> set (visitedUrls (snd (next_url (initial_frontier [''a/'']))))
   \<and> run_ops [Next, Enqueue ''a/'', Enqueue ''b/'', Enqueue ''b/'', Next, Next]
        (initial_frontier [''a/'', ''a/'']) = [''a/'', ''b/'']
   \<and> distinct (run_ops [Next, Enqueue ''a/'', Enqueue ''b/'', Enqueue ''b/'', Next, Next]
        (initial_frontier [''a/'', ''a/'']))"
proof -
  let ?fetch = "\<lambda>u::string. Some [\<lparr>a_href = siteBase @ ''b/'', a_attr = Some ''../b/''\<rparr>]"
  let ?end = "\<lparr>urlQueue = [], visitedUrls = [''a/'', ''b/''], discoveredUrls = [''b/'']\<rparr>"
  have run: "discoverUrls 5 ?fetch (initial_frontier [''a/'', ''a/'']) [] = Some ([''a/'', ''b/''], ?end)"
    by (simp add: initial_frontier_def next_url_def set_add_def enqueue_def extract_links_def
        link_href_def normalize_def absolutize_def startsWith_def baseUrl_def siteBase_def
        List.map_filter_simps)
  have q: "urlQueue (enqueue ''b/'' (initial_frontier [''a/''])) \<noteq> urlQueue (initial_frontier [''a/''])"
    by (simp add: enqueue_def initial_frontier_def)
  have n: "fst (next_url (initial_frontier [''a/''])) = Some ''a/''"
    by (simp add: next_url_def initial_frontier_def)
  have ops: "run_ops [Next, Enqueue ''a/'', Enqueue ''b/'', Enqueue ''b/'', Next, Next]
        (initial_frontier [''a/'', ''a/'']) = [''a/'', ''b/'']"
    by (simp add: next_url_def enqueue_def set_add_def initial_frontier_def)
  show ?thesis
    using run q n ops
      C2_at_most_once [of "[Next, Enqueue ''a/'', Enqueue ''b/'', Enqueue ''b/'', Next, Next]"
        "[''a/'', ''a/'']" 5 ?fetch "[''a/'', ''b/'']" ?end "''b/''" "initial_frontier [''a/'']" "''a/''"]
    by simp
qed

subsection \<open>Link normalization\<close>









subsection \<open>URL testing with checkpoints\<close>
























subsection \<open>The mirror writer\<close>



lemma downloadImages_events:
  "events (snd (downloadImages w imgs acc st)) =
     events st @ map (\<lambda>i. Goto (src i)) (filter (\<lambda>i. \<not> skipped i) imgs)"
  by (induction imgs arbitrary: acc st)
     (simp_all add: Let_def split: image_outcome.splits bool.splits)





lemma downloadImages_failed:
  "failedUrlList (snd (downloadImages w imgs acc st)) = failedUrlList st"
  by (induction imgs arbitrary: acc st)
     (simp_all add: Let_def split: image_outcome.splits bool.splits)

lemma downloadPage_Inl:
  assumes "w_page w (navigations st) (ud_url ud) = Inl m"
  shows "downloadPage w ud attempt st =
     (if attempt < retryAttempts
      then downloadPage w ud (attempt + 1)
             (st\<lparr>navigations := navigations st + 1, events := events st @ [Goto (ud_url ud), Delay 2000]\<rparr>)
      else (NotSaved (ud_url ud) m,
            st\<lparr>events := events st @ [Goto (ud_url ud)], navigations := navigations st + 1,
               failedUrlList := failedUrlList st @ [(ud_url ud, m)],
               dstats := (dstats st)\<lparr>failedCount := failedCount (dstats st) + 1\<rparr>\<rparr>))"
  using assms by (subst downloadPage.simps) (simp add: Let_def)

lemma downloadPage_Inr:
  assumes "w_page w (navigations st) (ud_url ud) = Inr page"
  shows "downloadPage w ud attempt st =
     (case downloadImages w (images page) []
        (st\<lparr>navigations := navigations st + 1, events := events st @ [Goto (ud_url ud), Delay 1000],
            files := (files st)(pagesPath (generateFilename (ud_sectionName ud) (ud_pageNumber ud) @ ''.html'')
                       \<mapsto> processHtmlContent (imageMapping st) (html page) (images page))\<rparr>) of
       (imgsDone, st4) \<Rightarrow>
        (Saved (ud_url ud) (generateFilename (ud_sectionName ud) (ud_pageNumber ud) @ ''.html'') (length imgsDone),
         st4\<lparr>dstats := (dstats st4)\<lparr>downloaded := downloaded (dstats st4) + 1,
                               imageCount := imageCount (dstats st4) + length imgsDone\<rparr>,
             downloadedUrls := set_add (ud_url ud) (downloadedUrls st4)\<rparr>))"
  using assms
  by (subst downloadPage.simps) (simp add: Let_def split: prod.splits)

lemma downloadPage_all_fail:
  assumes "\<forall>k<retryAttempts. w_page w (navigations st + k) (ud_url ud) = Inl (e k)"
  shows "downloadPage w ud 1 st =
     (NotSaved (ud_url ud) (e (retryAttempts - 1)),
      st\<lparr>events := events st @ [Goto (ud_url ud), Delay 2000, Goto (ud_url ud), Delay 2000, Goto (ud_url ud)],
         navigations := navigations st + retryAttempts,
         failedUrlList := failedUrlList st @ [(ud_url ud, e (retryAttempts - 1))],
         dstats := (dstats st)\<lparr>failedCount := failedCount (dstats st) + 1\<rparr>\<rparr>)"
proof -
  let ?u = "ud_url ud"
  let ?s1 = "st\<lparr>navigations := navigations st + 1, events := events st @ [Goto ?u, Delay 2000]\<rparr>"
  let ?s2 = "?s1\<lparr>navigations := navigations ?s1 + 1, events := events ?s1 @ [Goto ?u, Delay 2000]\<rparr>"
  have e0: "w_page w (navigations st) ?u = Inl (e 0)"
    and e1: "w_page w (navigations ?s1) ?u = Inl (e 1)"
    and e2: "w_page w (navigations ?s2) ?u = Inl (e 2)"
    using assms by (auto simp: retryAttempts_def dest: spec [of _ 0] spec [of _ 1] spec [of _ 2])
  have "downloadPage w ud 1 st = downloadPage w ud (1 + 1) ?s1"
    by (subst downloadPage_Inl [OF e0]) (simp add: retryAttempts_def)
  also have "\<dots> = downloadPage w ud (1 + 1 + 1) ?s2"
    by (subst downloadPage_Inl [OF e1]) (simp add: retryAttempts_def)
  also have "\<dots> = (NotSaved ?u (e 2),
            ?s2\<lparr>events := events ?s2 @ [Goto ?u], navigations := navigations ?s2 + 1,
               failedUrlList := failedUrlList ?s2 @ [(?u, e 2)],
               dstats := (dstats ?s2)\<lparr>failedCount := failedCount (dstats ?s2) + 1\<rparr>\<rparr>)"
    by (subst downloadPage_Inl [OF e2]) (simp add: retryAttempts_def)
  finally show ?thesis
    by (simp add: retryAttempts_def)
qed

lemma downloadPage_saved_fields:
  assumes "w_page w (navigations st) (ud_url ud) = Inr page"
  shows "failedUrlList (snd (downloadPage w ud a st)) = failedUrlList st"
    and "\<exists>evs. events (snd (downloadPage w ud a st)) = events st @ Goto (ud_url ud) # evs"
    and "\<exists>n. fst (downloadPage w ud a st) = Saved (ud_url ud)
            (generateFilename (ud_sectionName ud) (ud_pageNumber ud) @ ''.html'') n"
proof -
  let ?st3 = "st\<lparr>navigations := navigations st + 1, events := events st @ [Goto (ud_url ud), Delay 1000],
            files := (files st)(pagesPath (generateFilename (ud_sectionName ud) (ud_pageNumber ud) @ ''.html'')
                       \<mapsto> processHtmlContent (imageMapping st) (html page) (images page))\<rparr>"
  obtain got st4 where d: "downloadImages w (images page) [] ?st3 = (got, st4)"
    by (cases "downloadImages w (images page) [] ?st3")
  have f: "failedUrlList st4 = failedUrlList st"
    using downloadImages_failed [of w "images page" "[]" ?st3] d by simp
  have e: "events st4 = events st @ Goto (ud_url ud) # Delay 1000 # map (\<lambda>i. Goto (src i)) (filter (\<lambda>i. \<not> skipped i) (images page))"
    using downloadImages_events [of w "images page" "[]" ?st3] d by simp
  show "failedUrlList (snd (downloadPage w ud a st)) = failedUrlList st"
    using d f by (simp add: downloadPage_Inr [OF assms])
  show "\<exists>evs. events (snd (downloadPage w ud a st)) = events st @ Goto (ud_url ud) # evs"
    using d e by (simp add: downloadPage_Inr [OF assms])
  show "\<exists>n. fst (downloadPage w ud a st) = Saved (ud_url ud)
            (generateFilename (ud_sectionName ud) (ud_pageNumber ud) @ ''.html'') n"
    using d by (simp add: downloadPage_Inr [OF assms])
qed

lemma downloadPage_grows:
  "(\<exists>evs. events (snd (downloadPage w ud a st)) = events st @ Goto (ud_url ud) # evs)
   \<and> (\<exists>fs. failedUrlList (snd (downloadPage w ud a st)) = failedUrlList st @ fs)"
proof (induction "retryAttempts - a" arbitrary: a st)
  case 0
  show ?case
  proof (cases "w_page w (navigations st) (ud_url ud)")
    case (Inl m)
    then show ?thesis using 0 by (simp add: downloadPage_Inl)
  next
    case (Inr page)
    then show ?thesis using downloadPage_saved_fields [OF Inr, of a] by simp
  qed
next
  case (Suc k)
  show ?case
  proof (cases "w_page w (navigations st) (ud_url ud)")
    case (Inl m)
    let ?s1 = "st\<lparr>navigations := navigations st + 1, events := events st @ [Goto (ud_url ud), Delay 2000]\<rparr>"
    have "a < retryAttempts"
      using Suc.hyps(2) by arith
    then have "downloadPage w ud a st = downloadPage w ud (a + 1) ?s1"
      by (simp add: downloadPage_Inl [OF Inl])
    moreover have "k = retryAttempts - (a + 1)" using Suc.hyps(2) by simp
    ultimately show ?thesis
      using Suc.hyps(1) [of "a + 1" ?s1] by auto
  next
    case (Inr page)
    then show ?thesis using downloadPage_saved_fields [OF Inr, of a] by simp
  qed
qed

lemma downloadPage_never_loads:
  assumes "\<forall>n. w_page w n (ud_url ud) = Inl m"
  shows "failedUrlList (snd (downloadPage w ud a st)) = failedUrlList st @ [(ud_url ud, m)]"
proof (induction "retryAttempts - a" arbitrary: a st)
  case 0
  then show ?case using assms by (simp add: downloadPage_Inl)
next
  case (Suc k)
  let ?s1 = "st\<lparr>navigations := navigations st + 1, events := events st @ [Goto (ud_url ud), Delay 2000]\<rparr>"
  have "a < retryAttempts"
    using Suc.hyps(2) by arith
  then have "downloadPage w ud a st = downloadPage w ud (a + 1) ?s1"
    using assms by (simp add: downloadPage_Inl)
  moreover have "k = retryAttempts - (a + 1)" using Suc.hyps(2) by simp
  ultimately show ?case
    using Suc.hyps(1) [of "a + 1" ?s1] by simp
qed

lemma download_all_Cons:
  "download_all w n (ud # rest) st =
     download_all w n rest
       (let st1 = snd (downloadPage w ud 1 st);
            st2 = (if downloaded (dstats st1) mod 10 = 0 then save_progress st1 else st1)
        in if downloaded (dstats st2) < n
           then st2\<lparr>events := events st2 @ [Delay delayBetweenPages]\<rparr> else st2)"
  by (simp add: Let_def)

lemma iteration_grows:
  fixes w ud n st
  defines "st' \<equiv> (let st1 = snd (downloadPage w ud 1 st);
            st2 = (if downloaded (dstats st1) mod 10 = 0 then save_progress st1 else st1)
        in if downloaded (dstats st2) < n
           then st2\<lparr>events := events st2 @ [Delay delayBetweenPages]\<rparr> else st2)"
  shows "\<exists>evs. events st' = events st @ Goto (ud_url ud) # evs"
    and "\<exists>fs. failedUrlList st' = failedUrlList (snd (downloadPage w ud 1 st)) @ fs"
    and "\<exists>fs. failedUrlList st' = failedUrlList st @ fs"
  using downloadPage_grows [of w ud 1 st]
  by (auto simp: st'_def Let_def save_progress_def)

lemma download_all_grows:
  "set (events st) \<subseteq> set (events (download_all w n urls st))
   \<and> set (failedUrlList st) \<subseteq> set (failedUrlList (download_all w n urls st))
   \<and> (\<forall>ud\<in>set urls. Goto (ud_url ud) \<in> set (events (download_all w n urls st)))
   \<and> (\<forall>ud\<in>set urls. (\<forall>k. w_page w k (ud_url ud) = Inl m) \<longrightarrow>
         (ud_url ud, m) \<in> set (failedUrlList (download_all w n urls st)))"
proof (induction urls arbitrary: st)
  case Nil
  show ?case by simp
next
  case (Cons ud rest)
  define st' where "st' = (let st1 = snd (downloadPage w ud 1 st);
            st2 = (if downloaded (dstats st1) mod 10 = 0 then save_progress st1 else st1)
        in if downloaded (dstats st2) < n
           then st2\<lparr>events := events st2 @ [Delay delayBetweenPages]\<rparr> else st2)"
  have da: "download_all w n (ud # rest) st = download_all w n rest st'"
    unfolding st'_def by (rule download_all_Cons)
  obtain evs where ev: "events st' = events st @ Goto (ud_url ud) # evs"
    unfolding st'_def using iteration_grows(1) [where w = w and ud = ud and n = n and st = st] by blast
  obtain fs where f1: "failedUrlList st' = failedUrlList (snd (downloadPage w ud 1 st)) @ fs"
    unfolding st'_def using iteration_grows(2) [where w = w and ud = ud and n = n and st = st] by blast
  obtain fs' where f2: "failedUrlList st' = failedUrlList st @ fs'"
    unfolding st'_def using iteration_grows(3) [where w = w and ud = ud and n = n and st = st] by blast
  have here: "(\<forall>k. w_page w k (ud_url ud) = Inl m) \<longrightarrow> (ud_url ud, m) \<in> set (failedUrlList st')"
    using downloadPage_never_loads [of w ud m 1 st] f1 by auto
  note IH = Cons.IH [of st']
  show ?case
    unfolding da using IH ev f2 here by auto
qed

lemma run_fields:
  "urls \<noteq> [] \<Longrightarrow> events (run w urls) =
     events (download_all w (length urls) urls
        (new_downloader\<lparr>dstats := (dstats new_downloader)\<lparr>totalUrls := length urls\<rparr>\<rparr>))"
  "urls \<noteq> [] \<Longrightarrow> failedUrlList (run w urls) =
     failedUrlList (download_all w (length urls) urls
        (new_downloader\<lparr>dstats := (dstats new_downloader)\<lparr>totalUrls := length urls\<rparr>\<rparr>))"
  "urls \<noteq> [] \<Longrightarrow> \<exists>p. progress (run w urls) = Some p \<and> p_failedUrls p = failedUrlList (run w urls)"
  by (simp_all add: run_def save_progress_def)


text \<open>
  C5. A page download whose every attempt raises is tried \<^verbatim>\<open>config.retryAttempts\<close> = 3
  times, 2000 ms apart; after the last attempt its URL and the last error are appended to
  the failed list and the failure is counted, and the call returns a failure instead of
  raising. An attempt that succeeds ends the retries and records no failure. The run
  goes on: every URL of the list is navigated to, whatever happened to the ones before
  it, and a URL that never loads is in the failed list at the end of the run and in the
  progress file.
\<close>

theorem C5_retry_then_continue:
  "((\<forall>k<retryAttempts. w_page w (navigations st + k) (ud_url ud) = Inl (e k)) \<longrightarrow>
      downloadPage w ud 1 st =
        (NotSaved (ud_url ud) (e (retryAttempts - 1)),
         st\<lparr>events := events st @ [Goto (ud_url ud), Delay 2000, Goto (ud_url ud), Delay 2000,
                                   Goto (ud_url ud)],
            navigations := navigations st + retryAttempts,
            failedUrlList := failedUrlList st @ [(ud_url ud, e (retryAttempts - 1))],
            dstats := (dstats st)\<lparr>failedCount := failedCount (dstats st) + 1\<rparr>\<rparr>))
   \<and> (w_page w (navigations st) (ud_url ud) = Inl m
        \<and> w_page w (navigations st + 1) (ud_url ud) = Inr page \<longrightarrow>
        failedUrlList (snd (downloadPage w ud 1 st)) = failedUrlList st
        \<and> (\<exists>n. fst (downloadPage w ud 1 st) =
              Saved (ud_url ud) (generateFilename (ud_sectionName ud) (ud_pageNumber ud) @ ''.html'') n))
   \<and> (\<forall>x\<in>set urls. Goto (ud_url x) \<in> set (events (run w urls)))
   \<and> (\<forall>x\<in>set urls. (\<forall>k. w_page w k (ud_url x) = Inl m) \<longrightarrow>
         (ud_url x, m) \<in> set (failedUrlList (run w urls))
         \<and> (\<exists>p. progress (run w urls) = Some p \<and> (ud_url x, m) \<in> set (p_failedUrls p)))"
proof (intro conjI impI ballI)
  assume "\<forall>k<retryAttempts. w_page w (navigations st + k) (ud_url ud) = Inl (e k)"
  then show "downloadPage w ud 1 st =
        (NotSaved (ud_url ud) (e (retryAttempts - 1)),
         st\<lparr>events := events st @ [Goto (ud_url ud), Delay 2000, Goto (ud_url ud), Delay 2000,
                                   Goto (ud_url ud)],
            navigations := navigations st + retryAttempts,
            failedUrlList := failedUrlList st @ [(ud_url ud, e (retryAttempts - 1))],
            dstats := (dstats st)\<lparr>failedCount := failedCount (dstats st) + 1\<rparr>\<rparr>)"
    by (rule downloadPage_all_fail)
next
  assume h: "w_page w (navigations st) (ud_url ud) = Inl m
        \<and> w_page w (navigations st + 1) (ud_url ud) = Inr page"
  let ?s1 = "st\<lparr>navigations := navigations st + 1, events := events st @ [Goto (ud_url ud), Delay 2000]\<rparr>"
  have eq: "downloadPage w ud 1 st = downloadPage w ud (1 + 1) ?s1"
    using h by (simp add: downloadPage_Inl retryAttempts_def)
  have p: "w_page w (navigations ?s1) (ud_url ud) = Inr page"
    using h by simp
  show "failedUrlList (snd (downloadPage w ud 1 st)) = failedUrlList st"
    unfolding eq using downloadPage_saved_fields(1) [OF p] by simp
  show "\<exists>n. fst (downloadPage w ud 1 st) =
              Saved (ud_url ud) (generateFilename (ud_sectionName ud) (ud_pageNumber ud) @ ''.html'') n"
    unfolding eq using downloadPage_saved_fields(3) [OF p] by simp
next
  fix x assume x: "x \<in> set urls"
  then have ne: "urls \<noteq> []" by auto
  show "Goto (ud_url x) \<in> set (events (run w urls))"
    unfolding run_fields(1) [OF ne] using download_all_grows x by blast
next
  fix x assume x: "x \<in> set urls" and f: "\<forall>k. w_page w k (ud_url x) = Inl m"
  then have ne: "urls \<noteq> []" by auto
  show l: "(ud_url x, m) \<in> set (failedUrlList (run w urls))"
    unfolding run_fields(2) [OF ne] using download_all_grows x f by blast
  show "\<exists>p. progress (run w urls) = Some p \<and> (ud_url x, m) \<in> set (p_failedUrls p)"
    using run_fields(3) [OF ne, of w] l by auto
qed

theorem C5_retry_then_continue_witness:
  "events (run \<lparr>w_page = (\<lambda>n u. if u = baseUrl @ ''top25/''
                                 then Inr \<lparr>html = ''<html></html>'', images = []\<rparr>
                                 else Inl ''net::ERR_CONNECTION_REFUSED''),
                 w_image = (\<lambda>n u. ImageNoResponse), w_md5 = (\<lambda>u. ''00000000'')\<rparr>
      [\<lparr>ud_url = baseUrl @ ''gone/'', ud_sectionName = ''gone'', ud_pageNumber = 0, ud_title = ''Gone''\<rparr>,
       \<lparr>ud_url = baseUrl @ ''top25/'', ud_sectionName = ''top25'', ud_pageNumber = 0, ud_title = ''Top 25''\<rparr>])
   = [Goto (baseUrl @ ''gone/''), Delay 2000, Goto (baseUrl @ ''gone/''), Delay 2000,
      Goto (baseUrl @ ''gone/''), Delay 1000, Goto (baseUrl @ ''top25/''), Delay 1000, Delay 1000]
   \<and> (baseUrl @ ''gone/'', ''net::ERR_CONNECTION_REFUSED'')
       \<in> set (failedUrlList (run \<lparr>w_page = (\<lambda>n u. if u = baseUrl @ ''top25/''
                                 then Inr \<lparr>html = ''<html></html>'', images = []\<rparr>
                                 else Inl ''net::ERR_CONNECTION_REFUSED''),
                 w_image = (\<lambda>n u. ImageNoResponse), w_md5 = (\<lambda>u. ''00000000'')\<rparr>
      [\<lparr>ud_url = baseUrl @ ''gone/'', ud_sectionName = ''gone'', ud_pageNumber = 0, ud_title = ''Gone''\<rparr>,
       \<lparr>ud_url = baseUrl @ ''top25/'', ud_sectionName = ''top25'', ud_pageNumber = 0, ud_title = ''Top 25''\<rparr>]))
   \<and> fst (downloadPage \<lparr>w_page = (\<lambda>n u. if u = baseUrl @ ''top25/''
                                 then Inr \<lparr>html = ''<html></html>'', images = []\<rparr>
                                 else Inl ''net::ERR_CONNECTION_REFUSED''),
                 w_image = (\<lambda>n u. ImageNoResponse), w_md5 = (\<lambda>u. ''00000000'')\<rparr>
        \<lparr>ud_url = baseUrl @ ''gone/'', ud_sectionName = ''gone'', ud_pageNumber = 0, ud_title = ''Gone''\<rparr>
        1 new_downloader)
       = NotSaved (baseUrl @ ''gone/'') ''net::ERR_CONNECTION_REFUSED''
   \<and> fst (downloadPage \<lparr>w_page = (\<lambda>n u. if n = 0 then Inl ''Navigation timeout of 15000 ms exceeded''
                                       else Inr \<lparr>html = ''<html></html>'', images = []\<rparr>),
                 w_image = (\<lambda>n u. ImageNoResponse), w_md5 = (\<lambda>u. ''00000000'')\<rparr>
        \<lparr>ud_url = baseUrl @ ''top25/'', ud_sectionName = ''top25'', ud_pageNumber = 0, ud_title = ''Top 25''\<rparr>
        1 new_downloader)
       = Saved (baseUrl @ ''top25/'') ''top25.html'' 0
   \<and> failedUrlList (snd (downloadPage \<lparr>w_page = (\<lambda>n u. if n = 0 then Inl ''Navigation timeout of 15000 ms exceeded''
                                       else Inr \<lparr>html = ''<html></html>'', images = []\<rparr>),
                 w_image = (\<lambda>n u. ImageNoResponse), w_md5 = (\<lambda>u. ''00000000'')\<rparr>
        \<lparr>ud_url = baseUrl @ ''top25/'', ud_sectionName = ''top25'', ud_pageNumber = 0, ud_title = ''Top 25''\<rparr>
        1 new_downloader)) = []"
proof -
  let ?w = "\<lparr>w_page = (\<lambda>n u. if u = baseUrl @ ''top25/''
                                 then Inr \<lparr>html = ''<html></html>'', images = []\<rparr>
                                 else Inl ''net::ERR_CONNECTION_REFUSED''),
                 w_image = (\<lambda>n u. ImageNoResponse), w_md5 = (\<lambda>u. ''00000000'')\<rparr>"
  let ?v = "\<lparr>w_page = (\<lambda>n u. if n = 0 then Inl ''Navigation timeout of 15000 ms exceeded''
                                       else Inr \<lparr>html = ''<html></html>'', images = []\<rparr>),
                 w_image = (\<lambda>n u. ImageNoResponse), w_md5 = (\<lambda>u. ''00000000'')\<rparr>"
  let ?a = "\<lparr>ud_url = baseUrl @ ''gone/'', ud_sectionName = ''gone'', ud_pageNumber = 0, ud_title = ''Gone''\<rparr>"
  let ?b = "\<lparr>ud_url = baseUrl @ ''top25/'', ud_sectionName = ''top25'', ud_pageNumber = 0, ud_title = ''Top 25''\<rparr>"
  have ev: "events (run ?w [?a, ?b])
   = [Goto (baseUrl @ ''gone/''), Delay 2000, Goto (baseUrl @ ''gone/''), Delay 2000,
      Goto (baseUrl @ ''gone/''), Delay 1000, Goto (baseUrl @ ''top25/''), Delay 1000, Delay 1000]"
    by (simp add: run_def new_downloader_def downloadPage.simps retryAttempts_def
      Let_def save_progress_def baseUrl_def delayBetweenPages_def)
  have never: "\<forall>k. w_page ?w k (ud_url ?a) = Inl ''net::ERR_CONNECTION_REFUSED''"
    by (simp add: baseUrl_def)
  then have thrice: "\<forall>k<retryAttempts. w_page ?w (navigations new_downloader + k) (ud_url ?a)
      = Inl ((\<lambda>k. ''net::ERR_CONNECTION_REFUSED'') k)"
    by simp
  have "?a \<in> set [?a, ?b]"
    by simp
  then have listed: "(ud_url ?a, ''net::ERR_CONNECTION_REFUSED'') \<in> set (failedUrlList (run ?w [?a, ?b]))"
    using never C5_retry_then_continue [of ?w new_downloader ?a "\<lambda>k. ''net::ERR_CONNECTION_REFUSED''"
          "''net::ERR_CONNECTION_REFUSED''" "\<lparr>html = [], images = []\<rparr>" "[?a, ?b]"]
    by blast
  have gone: "fst (downloadPage ?w ?a 1 new_downloader)
       = NotSaved (baseUrl @ ''gone/'') ''net::ERR_CONNECTION_REFUSED''"
    using thrice C5_retry_then_continue [of ?w new_downloader ?a "\<lambda>k. ''net::ERR_CONNECTION_REFUSED''"
          "''net::ERR_CONNECTION_REFUSED''" "\<lparr>html = [], images = []\<rparr>" "[?a, ?b]"]
    by simp
  have flaky: "w_page ?v (navigations new_downloader) (ud_url ?b) = Inl ''Navigation timeout of 15000 ms exceeded''
        \<and> w_page ?v (navigations new_downloader + 1) (ud_url ?b) = Inr \<lparr>html = ''<html></html>'', images = []\<rparr>"
    by (simp add: new_downloader_def)
  have second: "failedUrlList (snd (downloadPage ?v ?b 1 new_downloader)) = failedUrlList new_downloader
      \<and> (\<exists>n. fst (downloadPage ?v ?b 1 new_downloader) =
              Saved (ud_url ?b) (generateFilename (ud_sectionName ?b) (ud_pageNumber ?b) @ ''.html'') n)"
    using flaky C5_retry_then_continue [of ?v new_downloader ?b "\<lambda>k. []"
          "''Navigation timeout of 15000 ms exceeded''" "\<lparr>html = ''<html></html>'', images = []\<rparr>" "[]"]
    by blast
  have saved: "fst (downloadPage ?v ?b 1 new_downloader) = Saved (baseUrl @ ''top25/'') ''top25.html'' 0"
    by (simp add: new_downloader_def downloadPage.simps retryAttempts_def Let_def
        generateFilename_def safeSectionName_def is_alnum_def)
  show ?thesis
    using ev listed gone second saved by (simp add: new_downloader_def)
qed

subsection \<open>Rewriting the markup\<close>

lemma season_download:
  "downloadPage season_world season_page 1 new_downloader =
     (Saved ''https://0002n8y.wcomhost.com/website/season2022/'' ''season2022.html'' 2,
      \<lparr>downloadedUrls = [''https://0002n8y.wcomhost.com/website/season2022/''],
       failedUrlList = [],
       imageMapping = [(''a.png'', ''assets/images/img0_ac7687e8.png''),
                       (''b.png'', ''assets/images/img1_92f209d3.png'')],
       dstats = \<lparr>totalUrls = 0, downloaded = 1, failedCount = 0, imageCount = 2\<rparr>,
       files = [''downloaded_site/pages/season2022.html'' \<mapsto> season_markup,
                ''downloaded_site/assets/images/img0_ac7687e8.png'' \<mapsto> ''PNG'',
                ''downloaded_site/assets/images/img1_92f209d3.png'' \<mapsto> ''PNG''],
       progress = None,
       events = [Goto ''https://0002n8y.wcomhost.com/website/season2022/'', Delay 1000,
                 Goto ''https://0002n8y.wcomhost.com/website/season2022/a.png'',
                 Goto ''https://0002n8y.wcomhost.com/website/season2022/b.png'',
                 Goto ''https://0002n8y.wcomhost.com/website/season2022/c.png''],
       navigations = 4\<rparr>)"
  by (simp add: downloadPage.simps season_world_def season_page_def season_images_def new_downloader_def
      Let_def generateFilename_def safeSectionName_def is_alnum_def pagesPath_def imagesPath_def
      processHtmlContent_def skipped_def startsWith_def show_nat.simps digit_char_def
      getImageExtension_def to_lower_def map_set_def set_add_def)

lemma season_rewrite:
  "processHtmlContent [(''a.png'', ''assets/images/img0_ac7687e8.png''),
                       (''b.png'', ''assets/images/img1_92f209d3.png'')] season_markup season_images
   = ''<img src='' @ dq @ ''assets/images/img0_ac7687e8.png'' @ dq
       @ ''><img src='' @ dq @ ''assets/images/img1_92f209d3.png'' @ dq
       @ ''><img src='' @ dq @ ''c.png'' @ dq @ ''>''"
  by (simp add: processHtmlContent_def season_markup_def dq_def src_matches_def startsWith_def is_quote_def)

text \<open>
  C3. The claim asks that the markup written for a page carries the local paths of the
  images of that page that were downloaded. \<^verbatim>\<open>downloadPage\<close> processes and writes the
  markup before it calls \<^verbatim>\<open>downloadImages\<close>, with the mapping as the pages before left
  it. On a new downloader and the page with three images, two of them downloaded, the
  mapping gains its two entries and the third source stays unmapped, as claimed, and the
  file written is the original markup: the two local paths, which a rewrite with the
  mapping after the downloads puts in, are not in it.
\<close>

theorem C3_markup_written_before_download:
  "fst (downloadPage season_world season_page 1 new_downloader) =
     Saved ''https://0002n8y.wcomhost.com/website/season2022/'' ''season2022.html'' 2
   \<and> imageMapping (snd (downloadPage season_world season_page 1 new_downloader)) =
       [(''a.png'', ''assets/images/img0_ac7687e8.png''),
        (''b.png'', ''assets/images/img1_92f209d3.png'')]
   \<and> files (snd (downloadPage season_world season_page 1 new_downloader))
         ''downloaded_site/pages/season2022.html'' = Some season_markup
   \<and> processHtmlContent (imageMapping (snd (downloadPage season_world season_page 1 new_downloader)))
         season_markup season_images =
       ''<img src='' @ dq @ ''assets/images/img0_ac7687e8.png'' @ dq
         @ ''><img src='' @ dq @ ''assets/images/img1_92f209d3.png'' @ dq
         @ ''><img src='' @ dq @ ''c.png'' @ dq @ ''>''
   \<and> season_markup \<noteq>
       ''<img src='' @ dq @ ''assets/images/img0_ac7687e8.png'' @ dq
         @ ''><img src='' @ dq @ ''assets/images/img1_92f209d3.png'' @ dq
         @ ''><img src='' @ dq @ ''c.png'' @ dq @ ''>''"
proof -
  have differ: "season_markup \<noteq>
       ''<img src='' @ dq @ ''assets/images/img0_ac7687e8.png'' @ dq
         @ ''><img src='' @ dq @ ''assets/images/img1_92f209d3.png'' @ dq
         @ ''><img src='' @ dq @ ''c.png'' @ dq @ ''>''"
    by (simp add: season_markup_def dq_def)
  show ?thesis
    unfolding season_download using differ by (simp add: season_rewrite)
qed

end
